theory Spec2Isabelle
  imports Complex_Main "HOL-Library.Sublist" "HOL-Library.Multiset"
begin

section \<open>JavaScript values and strings\<close>

text \<open>
  The source is \<^verbatim>\<open>src/components/HashtagGenerator.tsx\<close>.  Its three pure parts,
  \<^verbatim>\<open>extractKeywords\<close>, \<^verbatim>\<open>generateCategoryHashtags\<close> and the
  merge expression of \<^verbatim>\<open>generateHashtags\<close>, are embedded below.

  A text is a \<^typ>\<open>string\<close>; every \<^typ>\<open>char\<close> is read as the code point
  U+0000..U+00FF with the same number, and a text with a character above U+00FF is
  outside the model.  On this range \<^verbatim>\<open>toLowerCase\<close> stays inside the range and
  keeps the length of the string.

  A JavaScript \<^verbatim>\<open>number\<close> that ends up in a \<^verbatim>\<open>confidence\<close> field is either
  a finite value or \<^verbatim>\<open>NaN\<close>.  A finite value is the exact rational here; the
  rounding of the double is not modelled.  The confidences are quotients of small
  integers, 0.7 and 0.9, and a text has fewer than \<open>2^30\<close> characters, so two
  confidences compare as doubles the way their exact values do.
\<close>

datatype number = Fin rat | NaN

text \<open>
  The values a property of the \<^verbatim>\<open>wordCount\<close> object can hold or inherit: a count,
  a string, a built-in function (with the text its string conversion gives), or the
  object \<^verbatim>\<open>Object.prototype\<close> itself.
\<close>

datatype jsval = Num nat | Str string | Fn string | ObjectPrototype

record GeneratedHashtag =
  tag :: string
  confidence :: number

subsection \<open>Character classes\<close>

definition in_range :: "nat \<Rightarrow> nat \<Rightarrow> char \<Rightarrow> bool" where
  "in_range lo hi c = (lo \<le> (of_char c :: nat) \<and> (of_char c :: nat) \<le> hi)"

text \<open>The regular expression class \<^verbatim>\<open>\w\<close> is \<^verbatim>\<open>[A-Za-z0-9_]\<close>.\<close>

definition is_word :: "char \<Rightarrow> bool" where
  "is_word c = (in_range 97 122 c \<or> in_range 65 90 c \<or> in_range 48 57 c \<or> c = CHR ''_'')"

text \<open>
  The class \<^verbatim>\<open>\s\<close>, which is also what \<^verbatim>\<open>trim\<close> removes: TAB, LF, VT, FF, CR,
  SPACE and NO-BREAK SPACE are its members below U+0100.
\<close>

definition is_space :: "char \<Rightarrow> bool" where
  "is_space c = (in_range 9 13 c \<or> c = CHR '' '' \<or> c = CHR 0xA0)"

text \<open>
  \<^verbatim>\<open>String.prototype.toLowerCase\<close>: A..Z and the capital letters U+00C0..U+00DE
  (without the multiplication sign U+00D7) move up by 32.
\<close>

definition lower_char :: "char \<Rightarrow> char" where
  "lower_char c =
     (if in_range 65 90 c \<or> (in_range 192 222 c \<and> c \<noteq> CHR 0xD7)
      then char_of ((of_char c :: nat) + 32) else c)"

definition toLowerCase :: "string \<Rightarrow> string" where
  "toLowerCase s = map lower_char s"

text \<open>\<^verbatim>\<open>s.replace(/[^\w\s]/g, ' ')\<close>\<close>

definition replace_nonword :: "string \<Rightarrow> string" where
  "replace_nonword s = map (\<lambda>c. if \<not> (is_word c \<or> is_space c) then CHR '' '' else c) s"

text \<open>
  \<^verbatim>\<open>s.split(/\s+/)\<close>: the piece before the first white space, then the pieces of what
  follows the whole run of white space.  A string without white space (the empty one
  too) is its own single piece, and white space at either end gives an empty piece.
\<close>

function split_ws :: "string \<Rightarrow> string list" where
  "split_ws s =
     (case dropWhile (\<lambda>c. \<not> is_space c) s of
        [] \<Rightarrow> [s]
      | _ # rest \<Rightarrow> takeWhile (\<lambda>c. \<not> is_space c) s # split_ws (dropWhile is_space rest))"
  by pat_completeness auto
termination
proof (relation "measure length")
  show "wf (measure length)" by simp
next
  fix s :: string and x rest
  assume a: "dropWhile (\<lambda>c. \<not> is_space c) s = x # rest"
  have "length (dropWhile is_space rest) \<le> length rest"
    by (rule length_dropWhile_le)
  moreover have "length (x # rest) \<le> length s"
    unfolding a [symmetric] by (rule length_dropWhile_le)
  ultimately show "(dropWhile is_space rest, s) \<in> measure length"
    by simp
qed

declare split_ws.simps [simp del]

text \<open>\<^verbatim>\<open>s.includes(k)\<close>: \<^verbatim>\<open>k\<close> starts at some position of \<^verbatim>\<open>s\<close>.\<close>

fun str_includes :: "string \<Rightarrow> string \<Rightarrow> bool" where
  "str_includes [] k = (k = [])"
| "str_includes (c # cs) k = (prefix k (c # cs) \<or> str_includes cs k)"

text \<open>\<^verbatim>\<open>s.trim()\<close>\<close>

definition trim :: "string \<Rightarrow> string" where
  "trim s = rev (dropWhile is_space (rev (dropWhile is_space s)))"

section \<open>Arrays and objects\<close>

text \<open>
  A comparator returns a number; \<^verbatim>\<open>Array.prototype.sort\<close> reads \<^verbatim>\<open>NaN\<close> as
  \<^verbatim>\<open>+0\<close> and moves \<^verbatim>\<open>a\<close> behind \<^verbatim>\<open>b\<close> only when the result is positive.
\<close>

fun positive :: "number \<Rightarrow> bool" where
  "positive (Fin r) = (0 < r)"
| "positive NaN = False"

fun num_sub :: "number \<Rightarrow> number \<Rightarrow> number" where
  "num_sub (Fin a) (Fin b) = Fin (a - b)"
| "num_sub _ _ = NaN"

text \<open>
  \<^verbatim>\<open>arr.sort(cmp)\<close>.  ECMAScript asks for a stable sort, which fixes the result
  whenever the comparator is consistent; insertion from the right is such a sort.
  With an inconsistent comparator (one that returns \<^verbatim>\<open>NaN\<close>) the standard leaves
  the order to the implementation, and this function gives one possible order.
\<close>

fun insert_sorted :: "('a \<Rightarrow> 'a \<Rightarrow> number) \<Rightarrow> 'a \<Rightarrow> 'a list \<Rightarrow> 'a list" where
  "insert_sorted cmp x [] = [x]"
| "insert_sorted cmp x (y # ys) =
     (if positive (cmp x y) then y # insert_sorted cmp x ys else x # y # ys)"

definition js_sort :: "('a \<Rightarrow> 'a \<Rightarrow> number) \<Rightarrow> 'a list \<Rightarrow> 'a list" where
  "js_sort cmp xs = foldr (insert_sorted cmp) xs []"

text \<open>\<^verbatim>\<open>arr.findIndex(p)\<close>, which is \<^verbatim>\<open>-1\<close> when no element satisfies \<^verbatim>\<open>p\<close>.\<close>

fun findIndex :: "('a \<Rightarrow> bool) \<Rightarrow> 'a list \<Rightarrow> int" where
  "findIndex p [] = - 1"
| "findIndex p (x # xs) =
     (if p x then 0 else (let i = findIndex p xs in if i < 0 then - 1 else i + 1))"

text \<open>
  An ordinary object is the list of its own properties in creation order.  The object
  literal \<^verbatim>\<open>{}\<close> inherits from \<^verbatim>\<open>Object.prototype\<close>, whose properties are listed
  here; a built-in function converts to the string shown.
\<close>

type_synonym object = "(string \<times> jsval) list"

definition native :: "string \<Rightarrow> jsval" where
  "native name = Fn (''function '' @ name @ ''() { [native code] }'')"

definition object_prototype :: object where
  "object_prototype =
     [(''constructor'', native ''Object''),
      (''__defineGetter__'', native ''__defineGetter__''),
      (''__defineSetter__'', native ''__defineSetter__''),
      (''hasOwnProperty'', native ''hasOwnProperty''),
      (''__lookupGetter__'', native ''__lookupGetter__''),
      (''__lookupSetter__'', native ''__lookupSetter__''),
      (''isPrototypeOf'', native ''isPrototypeOf''),
      (''propertyIsEnumerable'', native ''propertyIsEnumerable''),
      (''toString'', native ''toString''),
      (''valueOf'', native ''valueOf''),
      (''__proto__'', ObjectPrototype),
      (''toLocaleString'', native ''toLocaleString'')]"

text \<open>\<^verbatim>\<open>obj[key]\<close>: the own property, else the inherited one, else \<^verbatim>\<open>undefined\<close>.\<close>

definition get_prop :: "object \<Rightarrow> string \<Rightarrow> jsval option" where
  "get_prop obj key =
     (case map_of obj key of Some v \<Rightarrow> Some v | None \<Rightarrow> map_of object_prototype key)"

text \<open>
  \<^verbatim>\<open>obj[key] = v\<close> for a number or a string \<^verbatim>\<open>v\<close>: an own property is overwritten
  in place; the inherited setter of \<^verbatim>\<open>__proto__\<close> ignores a value that is not an
  object; any other key becomes a new own property, the last in creation order.
\<close>

definition set_prop :: "object \<Rightarrow> string \<Rightarrow> jsval \<Rightarrow> object" where
  "set_prop obj key v =
     (if key \<in> set (map fst obj) then map (\<lambda>(k, old). if k = key then (k, v) else (k, old)) obj
      else if key = ''__proto__'' then obj
      else obj @ [(key, v)])"

text \<open>\<^verbatim>\<open>x || 0\<close>, where \<^verbatim>\<open>None\<close> stands for \<^verbatim>\<open>undefined\<close>.\<close>

fun or_zero :: "jsval option \<Rightarrow> jsval" where
  "or_zero None = Num 0"
| "or_zero (Some (Num n)) = Num n"
| "or_zero (Some (Str s)) = (if s = [] then Num 0 else Str s)"
| "or_zero (Some v) = v"

text \<open>\<^verbatim>\<open>x + 1\<close>: addition on a number, concatenation with \<^verbatim>\<open>"1"\<close> on anything else.\<close>

fun plus_one :: "jsval \<Rightarrow> jsval" where
  "plus_one (Num n) = Num (n + 1)"
| "plus_one (Str s) = Str (s @ ''1'')"
| "plus_one (Fn src) = Str (src @ ''1'')"
| "plus_one ObjectPrototype = Str ''[object Object]1''"

text \<open>
  The conversion to a number that \<^verbatim>\<open>-\<close> and \<^verbatim>\<open>/\<close> apply to an operand.  The
  strings that \<^const>\<open>plus_one\<close> builds start with \<^verbatim>\<open>function\<close> or with
  \<^verbatim>\<open>[object\<close>; such a string is no numeric literal, so it converts to \<^verbatim>\<open>NaN\<close>
  (a function or an object is never an operand).
\<close>

fun to_number :: "jsval \<Rightarrow> number" where
  "to_number (Num n) = Fin (of_nat n)"
| "to_number _ = NaN"

text \<open>
  An array index is a canonical decimal numeral below \<^verbatim>\<open>2^32 - 1\<close>.
  \<^verbatim>\<open>Object.entries\<close> lists the array-index keys first, in ascending numeric order,
  and then the other keys in creation order.
\<close>

definition index_value :: "string \<Rightarrow> nat" where
  "index_value key = foldl (\<lambda>n c. 10 * n + ((of_char c :: nat) - 48)) 0 key"

definition is_array_index :: "string \<Rightarrow> bool" where
  "is_array_index key =
     (case key of
        [] \<Rightarrow> False
      | c # cs \<Rightarrow> list_all (in_range 48 57) key \<and> (cs = [] \<or> c \<noteq> CHR ''0'')
                 \<and> index_value key < 4294967295)"

definition entries :: "object \<Rightarrow> (string \<times> jsval) list" where
  "entries obj =
     sort_key (\<lambda>(k, v). index_value k) (filter (\<lambda>(k, v). is_array_index k) obj)
     @ filter (\<lambda>(k, v). \<not> is_array_index k) obj"

section \<open>extractKeywords\<close>

definition commonWords :: "string list" where
  "commonWords =
     [''that'', ''this'', ''with'', ''from'', ''they'', ''have'', ''been'', ''were'', ''will'',
      ''would'', ''could'', ''should'', ''about'', ''there'', ''their'', ''where'', ''when'',
      ''what'', ''which'', ''while'', ''through'', ''during'', ''before'', ''after'', ''above'',
      ''below'', ''between'', ''into'', ''onto'', ''upon'', ''within'', ''without'']"

definition words :: "string \<Rightarrow> string list" where
  "words text =
     filter (\<lambda>word. length word > 3 \<and> \<not> (word \<in> set commonWords))
       (split_ws (replace_nonword (toLowerCase text)))"

text \<open>The \<^verbatim>\<open>forEach\<close> that fills \<^verbatim>\<open>wordCount\<close>, starting from \<^verbatim>\<open>{}\<close>.\<close>

definition count_word :: "object \<Rightarrow> string \<Rightarrow> object" where
  "count_word wordCount word = set_prop wordCount word (plus_one (or_zero (get_prop wordCount word)))"

definition wordCount :: "string list \<Rightarrow> object" where
  "wordCount ws = foldl count_word [] ws"

text \<open>
  \<^verbatim>\<open>Math.min(count / words.length * 2, 0.9)\<close>.  Over a zero length the quotient is
  \<^verbatim>\<open>NaN\<close> for a zero count and \<^verbatim>\<open>Infinity\<close> otherwise, and the minimum of
  \<^verbatim>\<open>Infinity\<close> and \<^verbatim>\<open>0.9\<close> is \<^verbatim>\<open>0.9\<close>.
\<close>

definition freq_confidence :: "jsval \<Rightarrow> nat \<Rightarrow> number" where
  "freq_confidence cnt n =
     (case to_number cnt of
        NaN \<Rightarrow> NaN
      | Fin c \<Rightarrow>
          if n = 0 then (if c = 0 then NaN else Fin (9 / 10))
          else Fin (min (c / of_nat n * 2) (9 / 10)))"

definition count_cmp :: "string \<times> jsval \<Rightarrow> string \<times> jsval \<Rightarrow> number" where
  "count_cmp = (\<lambda>(_, a) (_, b). num_sub (to_number b) (to_number a))"

definition extractKeywords :: "string \<Rightarrow> GeneratedHashtag list" where
  "extractKeywords text =
     (let ws = words text in
      map (\<lambda>(word, cnt).
             \<lparr>tag = CHR ''#'' # word, confidence = freq_confidence cnt (length ws)\<rparr>)
        (take 12 (js_sort count_cmp (entries (wordCount ws)))))"

section \<open>generateCategoryHashtags\<close>

definition categories :: "(string \<times> string list) list" where
  "categories =
     [(''technology'', [''tech'', ''ai'', ''software'', ''digital'', ''innovation'', ''coding'',
                        ''development'', ''startup'', ''algorithm'']),
      (''business'', [''business'', ''entrepreneur'', ''marketing'', ''sales'', ''profit'',
                      ''company'', ''corporate'', ''strategy'']),
      (''lifestyle'', [''life'', ''living'', ''daily'', ''routine'', ''habit'', ''wellness'',
                       ''balance'', ''personal'']),
      (''fitness'', [''fitness'', ''workout'', ''exercise'', ''health'', ''gym'', ''training'',
                     ''muscle'', ''strength'']),
      (''travel'', [''travel'', ''trip'', ''vacation'', ''journey'', ''adventure'', ''explore'',
                    ''destination'', ''tourism'']),
      (''food'', [''food'', ''recipe'', ''cooking'', ''delicious'', ''meal'', ''restaurant'',
                  ''cuisine'', ''flavor'']),
      (''education'', [''learn'', ''education'', ''study'', ''knowledge'', ''skill'', ''course'',
                       ''training'', ''development'']),
      (''creativity'', [''creative'', ''art'', ''design'', ''inspiration'', ''idea'',
                        ''innovation'', ''artistic'', ''imagination''])]"

text \<open>
  The body of the \<^verbatim>\<open>forEach\<close> over the categories: \<^verbatim>\<open>push\<close> appends.  The
  matches are some of the keywords, so a positive number of matches is divided by a
  positive number of keywords.
\<close>

definition push_category ::
  "string \<Rightarrow> GeneratedHashtag list \<Rightarrow> string \<times> string list \<Rightarrow> GeneratedHashtag list" where
  "push_category lowerText matchedCategories = (\<lambda>(category, keywords).
     let matches = filter (\<lambda>keyword. str_includes lowerText keyword) keywords in
     if length matches > 0 then
       foldl (\<lambda>acc keyword. acc @ [\<lparr>tag = CHR ''#'' # keyword, confidence = Fin (7 / 10)\<rparr>])
         (matchedCategories @
            [\<lparr>tag = CHR ''#'' # category,
              confidence = Fin (of_nat (length matches) / of_nat (length keywords))\<rparr>])
         (take 2 matches)
     else matchedCategories)"

definition matchedCategories :: "string \<Rightarrow> GeneratedHashtag list" where
  "matchedCategories text = foldl (push_category (toLowerCase text)) [] categories"

definition confidence_cmp :: "GeneratedHashtag \<Rightarrow> GeneratedHashtag \<Rightarrow> number" where
  "confidence_cmp a b = num_sub (confidence b) (confidence a)"

definition generateCategoryHashtags :: "string \<Rightarrow> GeneratedHashtag list" where
  "generateCategoryHashtags text = take 8 (js_sort confidence_cmp (matchedCategories text))"

section \<open>generateHashtags\<close>

text \<open>
  The \<^verbatim>\<open>filter\<close> of the merge expression keeps the element at \<^verbatim>\<open>index\<close> when the
  first element with the same lower-cased tag is at that index.
\<close>

definition dedupe :: "GeneratedHashtag list \<Rightarrow> GeneratedHashtag list" where
  "dedupe arr =
     map snd (filter (\<lambda>(index, hashtag).
                findIndex (\<lambda>h. toLowerCase (tag h) = toLowerCase (tag hashtag)) arr = int index)
              (enumerate 0 arr))"

text \<open>
  The merge expression, which the source writes out with the limit 15 in both branches
  of \<^verbatim>\<open>generateHashtags\<close>; the limit is a parameter here.
\<close>

definition merge :: "nat \<Rightarrow> GeneratedHashtag list \<Rightarrow> GeneratedHashtag list \<Rightarrow> GeneratedHashtag list" where
  "merge limit keywordHashtags categoryHashtags =
     take limit (js_sort confidence_cmp (dedupe (keywordHashtags @ categoryHashtags)))"

definition allHashtags :: "string \<Rightarrow> GeneratedHashtag list" where
  "allHashtags inputText = merge 15 (extractKeywords inputText) (generateCategoryHashtags inputText)"

text \<open>
  \<^verbatim>\<open>generateHashtags\<close> returns early, without a result, on a text that is empty
  after \<^verbatim>\<open>trim\<close>.  Otherwise it stores the same list whether the model probe
  succeeds (\<open>probe_ok\<close>) or throws.
\<close>

definition generateHashtags :: "bool \<Rightarrow> string \<Rightarrow> GeneratedHashtag list option" where
  "generateHashtags probe_ok inputText =
     (if trim inputText = [] then None
      else if probe_ok then Some (allHashtags inputText)
      else Some (allHashtags inputText))"

section \<open>The specification's notions\<close>

text \<open>
  A list of hashtags is sorted descending by confidence when every confidence is a
  finite number that is at least every confidence after it.
\<close>

fun conf_ge :: "number \<Rightarrow> number \<Rightarrow> bool" where
  "conf_ge (Fin p) (Fin q) = (q \<le> p)"
| "conf_ge _ _ = False"

definition descending :: "GeneratedHashtag list \<Rightarrow> bool" where
  "descending hs = sorted_wrt (\<lambda>x y. conf_ge (confidence x) (confidence y)) hs"

text \<open>A confidence inside the closed interval from \<open>lo\<close> to \<open>hi\<close>.\<close>

fun conf_in :: "rat \<Rightarrow> rat \<Rightarrow> number \<Rightarrow> bool" where
  "conf_in lo hi (Fin r) = (lo \<le> r \<and> r \<le> hi)"
| "conf_in lo hi NaN = False"

text \<open>
  What section 4.2 of the specification has one category emit: nothing without a
  match; otherwise the category tag with the ratio of matched keywords, followed by the
  tags of the first two matches at 0.7.
\<close>

definition category_block :: "string \<Rightarrow> string \<times> string list \<Rightarrow> GeneratedHashtag list" where
  "category_block lowerText = (\<lambda>(category, keywords).
     let matches = filter (\<lambda>keyword. str_includes lowerText keyword) keywords in
     if matches = [] then []
     else \<lparr>tag = CHR ''#'' # category,
           confidence = Fin (of_nat (length matches) / of_nat (length keywords))\<rparr>
          # map (\<lambda>keyword. \<lparr>tag = CHR ''#'' # keyword, confidence = Fin (7 / 10)\<rparr>)
              (take 2 matches))"

text \<open>
  Steps 1 to 3 of section 4.1 of the specification, as it words them: lower-case the
  text, replace every character that is not a letter, digit, or underscore with a
  space, split on runs of white space, discard the tokens of length at most 3 and the
  stop words.  Below U+0100 the letters are A..Z, a..z, the two ordinal indicators,
  the micro sign and the accented letters U+00C0..U+00FF without the multiplication
  and the division sign; the decimal digits are 0..9.
\<close>

definition spec_letter :: "char \<Rightarrow> bool" where
  "spec_letter c =
     (in_range 97 122 c \<or> in_range 65 90 c \<or> c = CHR 0xAA \<or> c = CHR 0xB5 \<or> c = CHR 0xBA
      \<or> (in_range 192 255 c \<and> c \<noteq> CHR 0xD7 \<and> c \<noteq> CHR 0xF7))"

definition spec_digit :: "char \<Rightarrow> bool" where
  "spec_digit c = in_range 48 57 c"

definition spec_strip :: "string \<Rightarrow> string" where
  "spec_strip s =
     map (\<lambda>c. if spec_letter c \<or> spec_digit c \<or> c = CHR ''_'' then c else CHR '' '') s"

definition spec_tokens :: "string \<Rightarrow> string list" where
  "spec_tokens text =
     filter (\<lambda>t. \<not> length t \<le> 3) (filter (\<lambda>t. t \<notin> set commonWords)
       (split_ws (spec_strip (toLowerCase text))))"

text \<open>
  The same steps with the letters A..Z and a..z only, which with the digits and the
  underscore are the members of \<^verbatim>\<open>\w\<close>.
\<close>

definition ascii_letter :: "char \<Rightarrow> bool" where
  "ascii_letter c = (in_range 97 122 c \<or> in_range 65 90 c)"

definition ascii_digit :: "char \<Rightarrow> bool" where
  "ascii_digit c = in_range 48 57 c"

definition ascii_strip :: "string \<Rightarrow> string" where
  "ascii_strip s =
     map (\<lambda>c. if ascii_letter c \<or> ascii_digit c \<or> c = CHR ''_'' then c else CHR '' '') s"

definition ascii_tokens :: "string \<Rightarrow> string list" where
  "ascii_tokens text =
     filter (\<lambda>t. \<not> length t \<le> 3) (filter (\<lambda>t. t \<notin> set commonWords)
       (split_ws (ascii_strip (toLowerCase text))))"

section \<open>Notions used in the proofs\<close>

text \<open>White space turned into the plain space, as a stripping of every non-word character does.\<close>

definition blank_space :: "char \<Rightarrow> char" where
  "blank_space c = (if is_space c then CHR '' '' else c)"

text \<open>
  The object \<open>obj\<close> counts the words \<open>ws\<close>: no property is called
  \<^verbatim>\<open>__proto__\<close>, every property holds the number of occurrences of its key, and
  every other word is a key.
\<close>

definition counted :: "string list \<Rightarrow> object \<Rightarrow> bool" where
  "counted ws obj \<longleftrightarrow>
     list_all (\<lambda>(k, v). k \<noteq> ''__proto__'' \<and> v = Num (count_list ws k)) obj \<and>
     list_all (\<lambda>k. k = ''__proto__'' \<or> k \<in> fst ` set obj) ws"

text \<open>
  What the counting loop can leave in a property: a number, or a string that starts
  with the source text of a built-in function.
\<close>

definition stored_ok :: "jsval \<Rightarrow> bool" where
  "stored_ok v = (case v of Num n \<Rightarrow> True | Str s \<Rightarrow> prefix ''function '' s | _ \<Rightarrow> False)"

section \<open>Facts about the sort\<close>

lemma js_sort_Cons: "js_sort cmp (x # xs) = insert_sorted cmp x (js_sort cmp xs)"
  by (simp add: js_sort_def)

lemma set_insert_sorted: "set (insert_sorted cmp x ys) = insert x (set ys)"
  by (induction ys) auto

lemma set_js_sort: "set (js_sort cmp xs) = set xs"
  by (induction xs) (simp_all add: js_sort_def set_insert_sorted)

lemma length_insert_sorted: "length (insert_sorted cmp x ys) = Suc (length ys)"
  by (induction ys) auto

lemma length_js_sort: "length (js_sort cmp xs) = length xs"
  by (induction xs) (simp_all add: js_sort_def length_insert_sorted)

lemma mset_insert_sorted: "mset (insert_sorted cmp x ys) = add_mset x (mset ys)"
  by (induction ys) auto

lemma mset_js_sort: "mset (js_sort cmp xs) = mset xs"
  by (induction xs) (simp_all add: js_sort_def mset_insert_sorted)

lemma distinct_map_insert_sorted:
  "distinct (map f (insert_sorted cmp x ys)) \<longleftrightarrow> f x \<notin> f ` set ys \<and> distinct (map f ys)"
  by (induction ys) (auto simp: set_insert_sorted)

lemma distinct_map_js_sort: "distinct (map f (js_sort cmp xs)) \<longleftrightarrow> distinct (map f xs)"
  by (induction xs) (simp_all add: js_sort_def distinct_map_insert_sorted set_js_sort [unfolded js_sort_def])

text \<open>
  The comparator of the two confidence sorts is positive exactly when both confidences
  are finite and the first is the smaller one.
\<close>

lemma positive_confidence_cmp:
  "positive (confidence_cmp x y) \<longleftrightarrow> (\<exists>p q. confidence x = Fin p \<and> confidence y = Fin q \<and> p < q)"
  by (cases "confidence x"; cases "confidence y") (simp_all add: confidence_cmp_def)

lemma conf_ge_trans: "conf_ge u v \<Longrightarrow> conf_ge v w \<Longrightarrow> conf_ge u w"
  by (cases u; cases v; cases w) simp_all

lemma descending_insert_sorted:
  assumes "descending ys" and "confidence x \<noteq> NaN" and "\<forall>y\<in>set ys. confidence y \<noteq> NaN"
  shows "descending (insert_sorted confidence_cmp x ys)"
  using assms
proof (induction ys)
  case Nil
  show ?case by (simp add: descending_def)
next
  case (Cons y ys)
  obtain p where p: "confidence x = Fin p" using Cons.prems(2) by (cases "confidence x") auto
  obtain q where q: "confidence y = Fin q" using Cons.prems(3) by (cases "confidence y") auto
  from Cons.prems have dys: "descending ys" and ylater: "\<forall>z\<in>set ys. conf_ge (confidence y) (confidence z)"
    by (simp_all add: descending_def)
  show ?case
  proof (cases "positive (confidence_cmp x y)")
    case True
    then have "p < q" using p q by (simp add: positive_confidence_cmp)
    then have yx: "conf_ge (confidence y) (confidence x)" using p q by simp
    have "descending (insert_sorted confidence_cmp x ys)"
      using Cons.IH dys Cons.prems by simp
    with True yx ylater show ?thesis
      by (simp add: descending_def set_insert_sorted)
  next
    case False
    then have "q \<le> p" using p q by (simp add: positive_confidence_cmp)
    then have xy: "conf_ge (confidence x) (confidence y)" using p q by simp
    have "\<forall>z\<in>set ys. conf_ge (confidence x) (confidence z)"
      using xy ylater conf_ge_trans by blast
    with False xy Cons.prems(1) show ?thesis
      by (simp add: descending_def)
  qed
qed

lemma descending_js_sort:
  assumes "\<forall>h\<in>set xs. confidence h \<noteq> NaN"
  shows "descending (js_sort confidence_cmp xs)"
  using assms
proof (induction xs)
  case Nil
  show ?case by (simp add: js_sort_def descending_def)
next
  case (Cons x xs)
  then show ?case
    by (simp add: js_sort_Cons descending_insert_sorted set_js_sort)
qed

lemma descending_take: "descending xs \<Longrightarrow> descending (take n xs)"
  unfolding descending_def by (rule sorted_wrt_take)

lemma stable_insert_sorted:
  "filter (\<lambda>h. confidence h = v) (insert_sorted confidence_cmp x ys) =
   filter (\<lambda>h. confidence h = v) (x # ys)"
proof (induction ys)
  case Nil
  show ?case by simp
next
  case (Cons y ys)
  show ?case
  proof (cases "positive (confidence_cmp x y)")
    case True
    then have ne: "confidence x \<noteq> confidence y"
      by (auto simp: positive_confidence_cmp)
    from True have "filter (\<lambda>h. confidence h = v) (insert_sorted confidence_cmp x (y # ys)) =
        filter (\<lambda>h. confidence h = v) (y # x # ys)"
      using Cons.IH by simp
    also have "\<dots> = filter (\<lambda>h. confidence h = v) (x # y # ys)"
      using ne by auto
    finally show ?thesis .
  next
    case False
    then show ?thesis by simp
  qed
qed

lemma stable_js_sort:
  "filter (\<lambda>h. confidence h = v) (js_sort confidence_cmp xs) = filter (\<lambda>h. confidence h = v) xs"
proof (induction xs)
  case Nil
  show ?case by (simp add: js_sort_def)
next
  case (Cons x xs)
  have "filter (\<lambda>h. confidence h = v) (js_sort confidence_cmp (x # xs)) =
        filter (\<lambda>h. confidence h = v) (x # js_sort confidence_cmp xs)"
    unfolding js_sort_Cons by (rule stable_insert_sorted)
  with Cons.IH show ?case by simp
qed

section \<open>Facts about the removal of duplicates\<close>

lemma findIndex_range: "findIndex p xs = - 1 \<or> (0 \<le> findIndex p xs \<and> findIndex p xs < int (length xs))"
  by (induction xs) (auto simp: Let_def)

lemma findIndex_eq_iff:
  "findIndex p xs = int i \<longleftrightarrow> i < length xs \<and> p (xs ! i) \<and> (\<forall>j<i. \<not> p (xs ! j))"
proof (induction xs arbitrary: i)
  case Nil
  show ?case by simp
next
  case (Cons x xs)
  show ?case
  proof (cases "p x")
    case True
    then show ?thesis by (cases i) auto
  next
    case False
    show ?thesis
    proof (cases i)
      case 0
      with False findIndex_range [of p xs] show ?thesis by (auto simp: Let_def)
    next
      case (Suc k)
      have "findIndex p (x # xs) = int (Suc k) \<longleftrightarrow> findIndex p xs = int k"
        using False findIndex_range [of p xs] by (auto simp: Let_def)
      also have "\<dots> \<longleftrightarrow> k < length xs \<and> p (xs ! k) \<and> (\<forall>j<k. \<not> p (xs ! j))"
        by (rule Cons.IH)
      also have "\<dots> \<longleftrightarrow> Suc k < length (x # xs) \<and> p ((x # xs) ! Suc k) \<and> (\<forall>j<Suc k. \<not> p ((x # xs) ! j))"
        using False by (auto simp: less_Suc_eq_0_disj)
      finally show ?thesis using Suc by simp
    qed
  qed
qed

lemma in_dedupe_iff:
  "h \<in> set (dedupe arr) \<longleftrightarrow>
     (\<exists>i<length arr. arr ! i = h \<and> (\<forall>j<i. toLowerCase (tag (arr ! j)) \<noteq> toLowerCase (tag h)))"
  by (auto simp: dedupe_def in_set_enumerate_eq findIndex_eq_iff image_iff)

lemma dedupe_first:
  assumes "h \<in> set (dedupe arr)"
  shows "find (\<lambda>x. toLowerCase (tag x) = toLowerCase (tag h)) arr = Some h"
  using assms unfolding in_dedupe_iff find_Some_iff by auto

lemma distinct_dedupe: "distinct (map (\<lambda>h. toLowerCase (tag h)) (dedupe arr))"
proof -
  let ?Q = "\<lambda>(index, hashtag). findIndex (\<lambda>h. toLowerCase (tag h) = toLowerCase (tag hashtag)) arr = int index"
  let ?ps = "filter ?Q (enumerate 0 arr)"
  have d: "distinct ?ps" by (simp add: distinct_enumerate)
  have "inj_on (\<lambda>p. toLowerCase (tag (snd p))) (set ?ps)"
  proof (rule inj_onI)
    fix p q assume p: "p \<in> set ?ps" and q: "q \<in> set ?ps"
      and e: "toLowerCase (tag (snd p)) = toLowerCase (tag (snd q))"
    obtain i h where pi: "p = (i, h)" by (cases p)
    obtain j g where qj: "q = (j, g)" by (cases q)
    from p pi have 1: "findIndex (\<lambda>x. toLowerCase (tag x) = toLowerCase (tag h)) arr = int i"
      and hi: "i < length arr" "arr ! i = h" by (auto simp: in_set_enumerate_eq)
    from q qj have 2: "findIndex (\<lambda>x. toLowerCase (tag x) = toLowerCase (tag g)) arr = int j"
      and gj: "j < length arr" "arr ! j = g" by (auto simp: in_set_enumerate_eq)
    from e pi qj have "toLowerCase (tag h) = toLowerCase (tag g)" by simp
    with 1 2 have "i = j" by simp
    with hi gj pi qj show "p = q" by simp
  qed
  with d have "distinct (map (\<lambda>p. toLowerCase (tag (snd p))) ?ps)"
    by (simp add: distinct_map)
  then show ?thesis by (simp add: dedupe_def comp_def)
qed

lemma find_in_prefix:
  assumes "find p (xs @ ys) = Some h" and "\<exists>x\<in>set xs. p x"
  shows "find p xs = Some h"
  using assms by (induction xs) (auto split: if_splits)

lemma set_dedupe_subset: "set (dedupe arr) \<subseteq> set arr"
  by (auto simp: dedupe_def in_set_enumerate_eq)

section \<open>Facts about the tokenizer\<close>

lemma is_space_blank: "is_space (CHR '' '')"
  by (simp add: is_space_def)

lemma word_not_space: "is_word c \<Longrightarrow> \<not> is_space c"
  by (auto simp: is_word_def is_space_def in_range_def)

lemma is_word_ascii: "is_word c \<longleftrightarrow> ascii_letter c \<or> ascii_digit c \<or> c = CHR ''_''"
  by (auto simp: is_word_def ascii_letter_def ascii_digit_def)

lemma ascii_strip_replace: "ascii_strip s = map blank_space (replace_nonword s)"
  by (auto simp: ascii_strip_def replace_nonword_def blank_space_def is_word_ascii [symmetric]
      is_space_blank dest: word_not_space)

lemma is_space_blank_space: "is_space (blank_space c) = is_space c"
  by (simp add: blank_space_def is_space_blank)

lemma split_ws_blank: "split_ws (map blank_space s) = split_ws s"
proof (induction s rule: split_ws.induct)
  case (1 s)
  let ?ns = "\<lambda>c. \<not> is_space c"
  have comp: "?ns \<circ> blank_space = ?ns" "is_space \<circ> blank_space = is_space"
    by (auto simp: fun_eq_iff is_space_blank_space)
  have tk: "takeWhile ?ns (map blank_space s) = takeWhile ?ns s"
  proof -
    have "map blank_space (takeWhile ?ns s) = takeWhile ?ns s"
      by (rule map_idI) (auto dest: set_takeWhileD simp: blank_space_def)
    then show ?thesis by (simp add: takeWhile_map comp)
  qed
  have dr: "dropWhile ?ns (map blank_space s) = map blank_space (dropWhile ?ns s)"
    by (simp add: dropWhile_map comp)
  show ?case
  proof (cases "dropWhile ?ns s")
    case Nil
    then have "\<forall>c\<in>set s. \<not> is_space c" by (simp add: dropWhile_eq_Nil_conv)
    then have "map blank_space s = s" by (intro map_idI) (simp add: blank_space_def)
    then show ?thesis by simp
  next
    case (Cons x rest)
    have "split_ws (map blank_space s) =
        takeWhile ?ns s # split_ws (dropWhile is_space (map blank_space rest))"
      by (subst split_ws.simps) (simp add: dr Cons tk)
    also have "dropWhile is_space (map blank_space rest) = map blank_space (dropWhile is_space rest)"
      by (simp add: dropWhile_map comp)
    also have "split_ws (map blank_space (dropWhile is_space rest)) = split_ws (dropWhile is_space rest)"
      using Cons by (rule "1.IH")
    also have "takeWhile ?ns s # split_ws (dropWhile is_space rest) = split_ws s"
      by (subst (2) split_ws.simps) (simp add: Cons)
    finally show ?thesis .
  qed
qed

lemma words_ascii_tokens: "words t = ascii_tokens t"
  by (simp add: words_def ascii_tokens_def ascii_strip_replace split_ws_blank conj_commute not_le)

lemma split_ws_tokens:
  "t \<in> set (split_ws s) \<Longrightarrow> set t \<subseteq> {c \<in> set s. \<not> is_space c}"
proof (induction s arbitrary: t rule: split_ws.induct)
  case (1 s)
  let ?ns = "\<lambda>c. \<not> is_space c"
  show ?case
  proof (cases "dropWhile ?ns s")
    case Nil
    then have ns: "\<forall>c\<in>set s. \<not> is_space c" by (simp add: dropWhile_eq_Nil_conv)
    from "1.prems" Nil have "t = s" by (subst (asm) split_ws.simps) simp
    with ns show ?thesis by auto
  next
    case (Cons x rest)
    from "1.prems" Cons have "t = takeWhile ?ns s \<or> t \<in> set (split_ws (dropWhile is_space rest))"
      by (subst (asm) split_ws.simps) simp
    then show ?thesis
    proof
      assume "t = takeWhile ?ns s"
      then show ?thesis by (auto dest: set_takeWhileD)
    next
      assume "t \<in> set (split_ws (dropWhile is_space rest))"
      then have "set t \<subseteq> {c \<in> set (dropWhile is_space rest). \<not> is_space c}"
        by (rule "1.IH" [OF Cons])
      moreover have "set (dropWhile is_space rest) \<subseteq> set rest"
        by (auto dest: set_dropWhileD)
      moreover have "set rest \<subseteq> set (dropWhile ?ns s)" unfolding Cons by auto
      moreover have "set (dropWhile ?ns s) \<subseteq> set s" by (auto dest: set_dropWhileD)
      ultimately show ?thesis by blast
    qed
  qed
qed

lemma lower_char_space: "is_space c \<Longrightarrow> lower_char c = c"
  by (auto simp: lower_char_def is_space_def in_range_def)

lemma words_of_white_space:
  assumes "list_all is_space t"
  shows "words t = []"
proof -
  have "toLowerCase t = t"
    unfolding toLowerCase_def using assms by (intro map_idI) (simp add: list_all_iff lower_char_space)
  moreover have "replace_nonword t = t"
    unfolding replace_nonword_def using assms by (intro map_idI) (simp add: list_all_iff)
  ultimately have eq: "split_ws (replace_nonword (toLowerCase t)) = split_ws t" by simp
  have "w = []" if "w \<in> set (split_ws t)" for w
  proof -
    from that have "set w \<subseteq> {c \<in> set t. \<not> is_space c}" by (rule split_ws_tokens)
    with assms have "c \<notin> set w" for c by (auto simp: list_all_iff)
    then show ?thesis by (cases w) auto
  qed
  then have "\<forall>w\<in>set (split_ws t). \<not> 3 < length w" by fastforce
  then have "filter (\<lambda>word. length word > 3 \<and> \<not> (word \<in> set commonWords)) (split_ws t) = []"
    by (simp add: filter_empty_conv)
  with eq show ?thesis by (simp add: words_def)
qed

lemma lower_char_not_upper: "\<not> in_range 65 90 (lower_char c)"
  by (auto simp: lower_char_def in_range_def)

lemma replace_nonword_keeps:
  assumes "c \<in> set (replace_nonword s)" and "\<not> is_space c"
  shows "c \<in> set s"
proof -
  from assms(1) obtain d where d: "d \<in> set s"
    and c: "c = (if \<not> (is_word d \<or> is_space d) then CHR '' '' else d)"
    unfolding replace_nonword_def by (auto simp only: set_map image_iff)
  show ?thesis
  proof (cases "is_word d \<or> is_space d")
    case True
    with c d show ?thesis by simp
  next
    case False
    with c have "c = CHR '' ''" by simp
    with assms(2) show ?thesis by (simp add: is_space_blank)
  qed
qed

lemma words_no_upper:
  assumes "w \<in> set (words t)"
  shows "\<forall>c\<in>set w. \<not> in_range 65 90 c"
proof
  fix c assume cw: "c \<in> set w"
  from assms have "w \<in> set (split_ws (replace_nonword (toLowerCase t)))"
    by (simp add: words_def)
  then have "set w \<subseteq> {c \<in> set (replace_nonword (toLowerCase t)). \<not> is_space c}"
    by (rule split_ws_tokens)
  with cw have "c \<in> set (replace_nonword (toLowerCase t))" and "\<not> is_space c" by auto
  then have "c \<in> set (toLowerCase t)" by (rule replace_nonword_keeps)
  then obtain d where "c = lower_char d" unfolding toLowerCase_def by (auto simp only: set_map image_iff)
  then show "\<not> in_range 65 90 c" by (simp add: lower_char_not_upper)
qed

text \<open>
  A letter outside A..Z and a..z is no member of \<^verbatim>\<open>\w\<close>: it is turned into a space
  and ends the token.
\<close>

lemma words_accented_letter:
  "words (''caf'' @ [CHR 0xE9]) = [] \<and> words (''na'' @ CHR 0xEF # ''vely'') = [''vely'']"
proof -
  have 1: "words (''caf'' @ [CHR 0xE9]) = []" by code_simp
  have 2: "words (''na'' @ CHR 0xEF # ''vely'') = [''vely'']" by code_simp
  from 1 2 show ?thesis by (intro conjI)
qed

text \<open>
  On a text of characters below U+0080 the two readings of letter agree, so the
  specification's steps as worded give the same tokens there.
\<close>

lemma lower_char_ascii: "in_range 0 127 c \<Longrightarrow> in_range 0 127 (lower_char c)"
  by (auto simp: lower_char_def in_range_def)

lemma spec_letter_ascii: "in_range 0 127 c \<Longrightarrow> spec_letter c = ascii_letter c"
  by (auto simp: spec_letter_def ascii_letter_def in_range_def)

lemma spec_tokens_ascii:
  assumes "list_all (in_range 0 127) t"
  shows "spec_tokens t = ascii_tokens t"
proof -
  have "\<forall>c\<in>set (toLowerCase t). in_range 0 127 c"
    using assms by (auto simp: toLowerCase_def list_all_iff lower_char_ascii)
  then have "spec_strip (toLowerCase t) = ascii_strip (toLowerCase t)"
    unfolding spec_strip_def ascii_strip_def
    by (intro map_cong) (simp_all add: spec_letter_ascii spec_digit_def ascii_digit_def)
  then show ?thesis by (simp add: spec_tokens_def ascii_tokens_def)
qed

section \<open>Facts about the word counts\<close>

lemma set_prop_keys: "fst ` set (set_prop obj k v) \<subseteq> insert k (fst ` set obj)"
  by (auto simp: set_prop_def image_iff split: if_splits)

lemma count_word_keys: "fst ` set (count_word obj w) \<subseteq> insert w (fst ` set obj)"
  unfolding count_word_def by (rule set_prop_keys)

lemma foldl_count_word_keys: "fst ` set (foldl count_word obj ws) \<subseteq> fst ` set obj \<union> set ws"
proof (induction ws arbitrary: obj)
  case Nil
  show ?case by simp
next
  case (Cons w ws)
  have "fst ` set (foldl count_word (count_word obj w) ws) \<subseteq> fst ` set (count_word obj w) \<union> set ws"
    by (rule Cons.IH)
  with count_word_keys [of obj w] show ?case by (simp only: foldl_Cons set_simps) blast
qed

lemma wordCount_keys: "fst ` set (wordCount ws) \<subseteq> set ws"
  using foldl_count_word_keys [of "[]" ws] by (simp add: wordCount_def)

lemma set_entries: "set (entries obj) = set obj"
  by (auto simp: entries_def)

lemma set_ranked_entries:
  "set (take 12 (js_sort count_cmp (entries obj))) \<subseteq> set obj"
  using set_take_subset [of 12 "js_sort count_cmp (entries obj)"]
  by (simp add: set_js_sort set_entries)

lemma extractKeywords_tag:
  assumes "h \<in> set (extractKeywords t)"
  shows "\<exists>w \<in> set (words t). tag h = CHR ''#'' # w"
proof -
  from assms obtain w c where wc: "(w, c) \<in> set (take 12 (js_sort count_cmp (entries (wordCount (words t)))))"
    and h: "tag h = CHR ''#'' # w"
    by (auto simp: extractKeywords_def Let_def)
  from wc set_ranked_entries have "(w, c) \<in> set (wordCount (words t))" by blast
  then have "w \<in> fst ` set (wordCount (words t))" by force
  with wordCount_keys have "w \<in> set (words t)" by blast
  with h show ?thesis by blast
qed

lemma extractKeywords_no_words: "words t = [] \<Longrightarrow> extractKeywords t = []"
  by (simp add: extractKeywords_def wordCount_def entries_def js_sort_def)

text \<open>
  Counting is as intended on words that name no inherited property; the word
  \<^verbatim>\<open>__proto__\<close> is skipped, since its assignment creates no property.
\<close>

lemma proto_inherited: "map_of object_prototype ''__proto__'' = Some ObjectPrototype"
  by (simp add: object_prototype_def)

lemma counted_skip:
  assumes c: "counted ws obj"
  shows "count_word obj ''__proto__'' = obj" and "counted (ws @ [''__proto__'']) obj"
proof -
  from c have nokey: "''__proto__'' \<notin> fst ` set obj"
    by (auto simp: counted_def list_all_iff)
  then have "''__proto__'' \<notin> set (map fst obj)" by simp
  then show "count_word obj ''__proto__'' = obj"
    by (simp add: count_word_def set_prop_def)
  from c show "counted (ws @ [''__proto__'']) obj"
    by (auto simp: counted_def list_all_iff)
qed

lemma counted_plain:
  assumes c: "counted ws obj" and plain: "map_of object_prototype w = None"
  shows "counted (ws @ [w]) (count_word obj w)"
proof -
  from plain proto_inherited have np: "w \<noteq> ''__proto__''" by auto
  from c have vals: "\<And>k v. (k, v) \<in> set obj \<Longrightarrow> v = Num (count_list ws k)"
    and nokey: "\<And>v. (''__proto__'', v) \<notin> set obj"
    and keys: "\<And>k. k \<in> set ws \<Longrightarrow> k = ''__proto__'' \<or> k \<in> fst ` set obj"
    by (auto simp: counted_def list_all_iff)
  show ?thesis
  proof (cases "w \<in> fst ` set obj")
    case True
    then obtain v where "map_of obj w = Some v"
      by (metis map_of_eq_None_iff not_None_eq)
    moreover from this have "(w, v) \<in> set obj" by (rule map_of_SomeD)
    ultimately have look: "map_of obj w = Some (Num (count_list ws w))"
      using vals by auto
    from True have "w \<in> set (map fst obj)" by simp
    then have cw: "count_word obj w =
        map (\<lambda>(k, old). if k = w then (k, Num (Suc (count_list ws w))) else (k, old)) obj"
      by (simp add: count_word_def set_prop_def get_prop_def look)
    have 1: "list_all (\<lambda>(k, v). k \<noteq> ''__proto__'' \<and> v = Num (count_list (ws @ [w]) k)) (count_word obj w)"
      unfolding cw list_all_iff using vals nokey np by (auto split: if_splits)
    have "fst ` set (count_word obj w) = fst ` set obj"
      unfolding cw by (force simp: image_iff split: if_splits)
    with keys True have 2: "list_all (\<lambda>k. k = ''__proto__'' \<or> k \<in> fst ` set (count_word obj w)) (ws @ [w])"
      by (auto simp: list_all_iff)
    from 1 2 show ?thesis by (simp add: counted_def)
  next
    case False
    then have look: "map_of obj w = None" by (simp add: map_of_eq_None_iff)
    from False keys np have fresh: "w \<notin> set ws" by blast
    from False have "w \<notin> set (map fst obj)" by simp
    then have cw: "count_word obj w = obj @ [(w, Num 1)]"
      using np by (simp add: count_word_def set_prop_def get_prop_def look plain)
    have 1: "list_all (\<lambda>(k, v). k \<noteq> ''__proto__'' \<and> v = Num (count_list (ws @ [w]) k)) (count_word obj w)"
      unfolding cw list_all_iff using vals nokey False fresh np by force
    have 2: "list_all (\<lambda>k. k = ''__proto__'' \<or> k \<in> fst ` set (count_word obj w)) (ws @ [w])"
      unfolding cw using keys by (auto simp: list_all_iff)
    from 1 2 show ?thesis by (simp add: counted_def)
  qed
qed

lemma counted_wordCount:
  assumes "\<forall>w\<in>set ws. map_of object_prototype w = None \<or> w = ''__proto__''"
  shows "counted ws (wordCount ws)"
  using assms
proof (induction ws rule: rev_induct)
  case Nil
  show ?case by (simp add: counted_def wordCount_def)
next
  case (snoc w ws)
  then have c: "counted ws (wordCount ws)" by simp
  have step: "wordCount (ws @ [w]) = count_word (wordCount ws) w"
    by (simp add: wordCount_def)
  from snoc.prems have "map_of object_prototype w = None \<or> w = ''__proto__''" by simp
  then show ?case
  proof
    assume "map_of object_prototype w = None"
    with c show ?thesis unfolding step by (rule counted_plain)
  next
    assume "w = ''__proto__''"
    with counted_skip [OF c] have "count_word (wordCount ws) w = wordCount ws"
      and "counted (ws @ [w]) (wordCount ws)" by simp_all
    then show ?thesis by (simp add: step)
  qed
qed

text \<open>
  A token has no capital letter, and of the inherited property names only
  \<^verbatim>\<open>constructor\<close> and \<^verbatim>\<open>__proto__\<close> are without one.
\<close>

lemma upper_in_key:
  "list_all (\<lambda>(k, v). k = ''constructor'' \<or> k = ''__proto__'' \<or> list_ex (in_range 65 90) k) object_prototype"
  by code_simp

lemma no_upper_plain:
  assumes "\<forall>c\<in>set w. \<not> in_range 65 90 c"
  shows "map_of object_prototype w = None \<or> w = ''constructor'' \<or> w = ''__proto__''"
proof (cases "map_of object_prototype w")
  case None
  then show ?thesis by simp
next
  case (Some v)
  then have "(w, v) \<in> set object_prototype" by (rule map_of_SomeD)
  with upper_in_key have "w = ''constructor'' \<or> w = ''__proto__'' \<or> list_ex (in_range 65 90) w"
    unfolding list_all_iff by blast
  with assms show ?thesis by (auto simp: list_ex_iff)
qed

lemma freq_confidence_Num:
  "0 < n \<Longrightarrow> freq_confidence (Num c) n = Fin (min (of_nat c / of_nat n * 2) (9 / 10))"
  by (simp add: freq_confidence_def)

text \<open>
  On a text without the token \<^verbatim>\<open>constructor\<close> every confidence of the frequency
  scorer is the minimum of twice the token's share of the surviving tokens and 0.9.
\<close>

lemma extractKeywords_confidence:
  assumes nc: "''constructor'' \<notin> set (words t)" and h: "h \<in> set (extractKeywords t)"
  shows "\<exists>w\<in>set (words t). tag h = CHR ''#'' # w \<and>
     confidence h = Fin (min (of_nat (count_list (words t) w) / of_nat (length (words t)) * 2) (9 / 10))"
proof -
  let ?ws = "words t"
  have "\<forall>w\<in>set ?ws. map_of object_prototype w = None \<or> w = ''__proto__''"
    using nc no_upper_plain [OF words_no_upper] by blast
  then have c: "counted ?ws (wordCount ?ws)" by (rule counted_wordCount)
  from h obtain w v where wv: "(w, v) \<in> set (take 12 (js_sort count_cmp (entries (wordCount ?ws))))"
    and hh: "h = \<lparr>tag = CHR ''#'' # w, confidence = freq_confidence v (length ?ws)\<rparr>"
    by (auto simp: extractKeywords_def Let_def)
  from wv set_ranked_entries have mem: "(w, v) \<in> set (wordCount ?ws)" by blast
  with c have v: "v = Num (count_list ?ws w)" by (auto simp: counted_def list_all_iff)
  from mem have "w \<in> fst ` set (wordCount ?ws)" by force
  with wordCount_keys have w: "w \<in> set ?ws" by blast
  then have "0 < length ?ws" by (cases ?ws) auto
  then have "freq_confidence v (length ?ws) =
      Fin (min (of_nat (count_list ?ws w) / of_nat (length ?ws) * 2) (9 / 10))"
    unfolding v by (rule freq_confidence_Num)
  with hh w show ?thesis by auto
qed

lemma length_extractKeywords: "length (extractKeywords t) \<le> 12"
  by (simp add: extractKeywords_def Let_def)

lemma extractKeywords_interval:
  assumes "''constructor'' \<notin> set (words t)" and "h \<in> set (extractKeywords t)"
  shows "conf_in 0 (9 / 10) (confidence h)"
proof -
  from extractKeywords_confidence [OF assms] obtain w where
    "confidence h = Fin (min (of_nat (count_list (words t) w) / of_nat (length (words t)) * 2) (9 / 10))"
    by blast
  moreover define r :: rat where "r = of_nat (count_list (words t) w) / of_nat (length (words t)) * 2"
  moreover have "0 \<le> r" unfolding r_def by simp
  then have "0 \<le> min r (9 / 10)" and "min r (9 / 10) \<le> 9 / 10" by simp_all
  ultimately show ?thesis by (simp only: conf_in.simps)
qed

text \<open>
  Every string the loop stores starts with \<^verbatim>\<open>function\<close>, so none of them is a
  numeric literal and \<^const>\<open>to_number\<close> is right to convert them to \<^verbatim>\<open>NaN\<close>.
\<close>

lemma inherited_values:
  "list_all (\<lambda>(k, v). if k = ''__proto__'' then v = ObjectPrototype
                       else \<exists>src. v = Fn (''function '' @ src)) object_prototype"
  by (simp add: object_prototype_def native_def)

lemma inherited_cases:
  assumes "map_of object_prototype w = Some v"
  shows "(w = ''__proto__'' \<and> v = ObjectPrototype) \<or> (w \<noteq> ''__proto__'' \<and> (\<exists>src. v = Fn (''function '' @ src)))"
proof -
  from assms have "(w, v) \<in> set object_prototype" by (rule map_of_SomeD)
  with inherited_values
  have "if w = ''__proto__'' then v = ObjectPrototype else \<exists>src. v = Fn (''function '' @ src)"
    unfolding list_all_iff by blast
  then show ?thesis by (cases "w = ''__proto__''") simp_all
qed

lemma count_word_stored:
  assumes inv: "list_all (\<lambda>(k, v). k \<noteq> ''__proto__'' \<and> stored_ok v) obj"
  shows "list_all (\<lambda>(k, v). k \<noteq> ''__proto__'' \<and> stored_ok v) (count_word obj w)"
proof (cases "w \<in> set (map fst obj)")
  case True
  then obtain v where look: "map_of obj w = Some v"
    by (metis map_of_eq_None_iff not_None_eq set_map)
  then have "(w, v) \<in> set obj" by (rule map_of_SomeD)
  with inv have ok: "stored_ok v" by (auto simp: list_all_iff)
  have "stored_ok (plus_one (or_zero (Some v)))"
  proof (cases v)
    case (Num n)
    then show ?thesis by (simp add: stored_ok_def)
  next
    case (Str s)
    with ok have "prefix ''function '' s" by (simp add: stored_ok_def)
    then have "s \<noteq> []" and "prefix ''function '' (s @ ''1'')" by (auto simp: prefix_def)
    with Str show ?thesis by (simp add: stored_ok_def)
  next
    case (Fn src)
    with ok show ?thesis by (simp add: stored_ok_def)
  next
    case ObjectPrototype
    with ok show ?thesis by (simp add: stored_ok_def)
  qed
  with True inv show ?thesis
    by (auto simp: count_word_def set_prop_def get_prop_def look list_all_iff split: if_splits)
next
  case False
  then have look: "map_of obj w = None" by (simp add: map_of_eq_None_iff)
  show ?thesis
  proof (cases "w = ''__proto__''")
    case True
    with False show ?thesis using inv by (simp add: count_word_def set_prop_def)
  next
    case np: False
    have "stored_ok (plus_one (or_zero (map_of object_prototype w)))"
    proof (cases "map_of object_prototype w")
      case None
      then show ?thesis by (simp add: stored_ok_def)
    next
      case (Some v)
      with inherited_cases np obtain src where "v = Fn (''function '' @ src)" by blast
      with Some show ?thesis by (simp add: stored_ok_def)
    qed
    with False np inv show ?thesis
      by (simp add: count_word_def set_prop_def get_prop_def look)
  qed
qed

lemma wordCount_stored: "list_all (\<lambda>(k, v). k \<noteq> ''__proto__'' \<and> stored_ok v) (wordCount ws)"
proof (induction ws rule: rev_induct)
  case Nil
  show ?case by (simp add: wordCount_def)
next
  case (snoc w ws)
  have "wordCount (ws @ [w]) = count_word (wordCount ws) w" by (simp add: wordCount_def)
  with count_word_stored [OF snoc.IH] show ?case by simp
qed

section \<open>Facts about the category scorer\<close>

lemma foldl_push: "foldl (\<lambda>acc k. acc @ [f k]) init ks = init @ map f ks"
  by (induction ks arbitrary: init) simp_all

lemma push_category_eq: "push_category lowerText acc e = acc @ category_block lowerText e"
  by (cases e) (simp add: push_category_def category_block_def Let_def foldl_push)

lemma foldl_push_category:
  "foldl (push_category lowerText) acc es = acc @ concat (map (category_block lowerText) es)"
  by (induction es arbitrary: acc) (simp_all add: push_category_eq)

lemma matchedCategories_concat:
  "matchedCategories text = concat (map (category_block (toLowerCase text)) categories)"
  by (simp add: matchedCategories_def foldl_push_category)

lemma str_includes_sublist: "str_includes s k \<longleftrightarrow> sublist k s"
  by (induction s) (auto simp: sublist_Cons_right)

lemma category_block_conf:
  "h \<in> set (category_block lowerText e) \<Longrightarrow> conf_in 0 1 (confidence h)"
proof -
  assume h: "h \<in> set (category_block lowerText e)"
  obtain category kws where e: "e = (category, kws)" by (cases e)
  let ?m = "filter (\<lambda>keyword. str_includes lowerText keyword) kws"
  have le: "length ?m \<le> length kws" by (rule length_filter_le)
  have "(of_nat (length ?m) :: rat) \<le> of_nat (length kws)"
    using le by (simp only: of_nat_le_iff)
  then have "(of_nat (length ?m) :: rat) / of_nat (length kws) \<le> 1"
    by (simp add: divide_le_eq_1)
  with h e show ?thesis
    by (auto simp: category_block_def Let_def split: if_splits)
qed

lemma matchedCategories_conf:
  "h \<in> set (matchedCategories text) \<Longrightarrow> conf_in 0 1 (confidence h)"
  by (auto simp: matchedCategories_concat dest: category_block_conf)

lemma conf_in_not_NaN: "conf_in lo hi c \<Longrightarrow> c \<noteq> NaN"
  by (cases c) simp_all

lemma concat_map_mem: "e \<in> set es \<Longrightarrow> \<exists>pre post. concat (map f es) = pre @ f e @ post"
proof -
  assume "e \<in> set es"
  then obtain es1 es2 where "es = es1 @ e # es2"
    by (auto simp: in_set_conv_decomp)
  then have "concat (map f es) = concat (map f es1) @ f e @ concat (map f es2)"
    by simp
  then show ?thesis by blast
qed

lemma category_block_in_emitted:
  assumes "e \<in> set categories"
  shows "\<exists>pre post. matchedCategories t = pre @ category_block (toLowerCase t) e @ post"
  unfolding matchedCategories_concat using assms by (rule concat_map_mem)

section \<open>Facts about the pipeline\<close>

text \<open>
  On a text without the token \<^verbatim>\<open>constructor\<close> both scorers return finite
  confidences, and the list the pipeline computes is sorted descending by confidence.
\<close>

lemma allHashtags_descending:
  assumes "''constructor'' \<notin> set (words t)"
  shows "descending (allHashtags t)"
proof -
  have "\<forall>h\<in>set (extractKeywords t @ generateCategoryHashtags t). confidence h \<noteq> NaN"
  proof
    fix h assume "h \<in> set (extractKeywords t @ generateCategoryHashtags t)"
    then consider "h \<in> set (extractKeywords t)" | "h \<in> set (generateCategoryHashtags t)" by auto
    then show "confidence h \<noteq> NaN"
    proof cases
      case 1
      with assms have "conf_in 0 (9 / 10) (confidence h)" by (rule extractKeywords_interval)
      then show ?thesis by (rule conf_in_not_NaN)
    next
      case 2
      have "set (generateCategoryHashtags t) \<subseteq> set (matchedCategories t)"
        unfolding generateCategoryHashtags_def
        using set_take_subset [of 8 "js_sort confidence_cmp (matchedCategories t)"]
        by (simp add: set_js_sort)
      with 2 have "conf_in 0 1 (confidence h)" using matchedCategories_conf by blast
      then show ?thesis by (rule conf_in_not_NaN)
    qed
  qed
  then have "\<forall>h\<in>set (dedupe (extractKeywords t @ generateCategoryHashtags t)). confidence h \<noteq> NaN"
    using set_dedupe_subset by blast
  then have "descending (js_sort confidence_cmp (dedupe (extractKeywords t @ generateCategoryHashtags t)))"
    by (rule descending_js_sort)
  then show ?thesis unfolding allHashtags_def merge_def by (rule descending_take)
qed

section \<open>The frequency scorer\<close>

text \<open>
  C4.  On the text \<^verbatim>\<open>constructor\<close> the frequency scorer returns one entry whose
  confidence is \<^verbatim>\<open>NaN\<close>, which is no number between 0 and 0.9 and not the
  minimum of twice the token's share and 0.9.  The object \<^verbatim>\<open>wordCount\<close> starts
  as \<^verbatim>\<open>{}\<close> and inherits the property \<^verbatim>\<open>constructor\<close>, a function, so
  \<^verbatim>\<open>(wordCount[word] || 0) + 1\<close> is a string and no count, and the quotient of
  that string and the number of tokens is \<^verbatim>\<open>NaN\<close>.
\<close>

theorem extractKeywords_constructor_NaN:
  "words ''constructor'' = [''constructor''] \<and>
   wordCount [''constructor''] = [(''constructor'', Str ''function Object() { [native code] }1'')] \<and>
   extractKeywords ''constructor'' = [\<lparr>tag = ''#constructor'', confidence = NaN\<rparr>] \<and>
   list_ex (\<lambda>h. \<not> conf_in 0 (9 / 10) (confidence h)) (extractKeywords ''constructor'')"
proof -
  have 1: "words ''constructor'' = [''constructor'']" by code_simp
  have 2: "wordCount [''constructor''] = [(''constructor'', Str ''function Object() { [native code] }1'')]"
    by code_simp
  have 3: "extractKeywords ''constructor'' = [\<lparr>tag = ''#constructor'', confidence = NaN\<rparr>]"
    by code_simp
  have 4: "list_ex (\<lambda>h. \<not> conf_in 0 (9 / 10) (confidence h)) (extractKeywords ''constructor'')"
    unfolding 3 by simp
  from 1 2 3 4 show ?thesis by (intro conjI)
qed

text \<open>
  C5.  The surviving tokens are obtained by lower-casing the text, turning every
  character that is not one of the letters A..Z and a..z, a digit 0..9 or an
  underscore into a space, splitting on runs of white space, and dropping the tokens of
  length at most 3 and the stop words; a letter outside A..Z and a..z is turned into a
  space as well.  On a text of characters below U+0080 these are the tokens of the
  specification's steps as worded.  Only surviving tokens are keys of the counts, and
  every tag returned is \<^verbatim>\<open>#\<close> followed by a surviving token.
\<close>

theorem tokenizer_refines_ascii_spec:
  "words text = ascii_tokens text \<and>
   (list_all (in_range 0 127) text \<longrightarrow> words text = spec_tokens text) \<and>
   fst ` set (wordCount (words text)) \<subseteq> set (words text) \<and>
   (\<forall>h \<in> set (extractKeywords text). \<exists>w \<in> set (words text). tag h = CHR ''#'' # w)"
  using words_ascii_tokens spec_tokens_ascii wordCount_keys extractKeywords_tag by metis

theorem tokenizer_refines_ascii_spec_witness:
  "ascii_tokens (''Tech-savvy caf'' @ CHR 0xE9 # ''s: that coffee!'') = [''tech'', ''savvy'', ''coffee''] \<and>
   list_all (in_range 0 127) ''Tech-savvy: that coffee!'' \<and>
   spec_tokens ''Tech-savvy: that coffee!'' = [''tech'', ''savvy'', ''coffee''] \<and>
   \<lparr>tag = ''#tech'', confidence = Fin (2 / 3)\<rparr>
     \<in> set (extractKeywords (''Tech-savvy caf'' @ CHR 0xE9 # ''s: that coffee!'')) \<and>
   (\<exists>w \<in> set (words (''Tech-savvy caf'' @ CHR 0xE9 # ''s: that coffee!'')). ''#tech'' = CHR ''#'' # w)"
proof -
  let ?t = "''Tech-savvy caf'' @ CHR 0xE9 # ''s: that coffee!''"
  let ?u = "''Tech-savvy: that coffee!''"
  have w: "words ?t = [''tech'', ''savvy'', ''coffee'']" by code_simp
  have a: "list_all (in_range 0 127) ?u" by code_simp
  have wu: "words ?u = [''tech'', ''savvy'', ''coffee'']" by code_simp
  have m: "\<lparr>tag = ''#tech'', confidence = Fin (2 / 3)\<rparr> \<in> set (extractKeywords ?t)" by code_simp
  from tokenizer_refines_ascii_spec [of ?t] have "words ?t = ascii_tokens ?t" by blast
  with w have s: "ascii_tokens ?t = [''tech'', ''savvy'', ''coffee'']" by simp
  from tokenizer_refines_ascii_spec [of ?u] a have "words ?u = spec_tokens ?u" by blast
  with wu have su: "spec_tokens ?u = [''tech'', ''savvy'', ''coffee'']" by simp
  from tokenizer_refines_ascii_spec [of ?t] m
  have "\<exists>w \<in> set (words ?t). tag \<lparr>tag = ''#tech'', confidence = Fin (2 / 3)\<rparr> = CHR ''#'' # w"
    by blast
  then have e: "\<exists>w \<in> set (words ?t). ''#tech'' = CHR ''#'' # w" by simp
  from s a su m e show ?thesis by (intro conjI)
qed

text \<open>
  With every letter kept, as the specification words step 1, the text
  \<^verbatim>\<open>caf\<close> followed by e-acute (U+00E9) is one token of length 4 that survives.
  The code turns the accented letter into a space, is left with a token of length 3, and
  returns no hashtag.
\<close>

theorem tokenizer_letter_counterexample:
  "words (''caf'' @ [CHR 0xE9]) = [] \<and>
   spec_tokens (''caf'' @ [CHR 0xE9]) = [''caf'' @ [CHR 0xE9]] \<and>
   words (''caf'' @ [CHR 0xE9]) \<noteq> spec_tokens (''caf'' @ [CHR 0xE9]) \<and>
   extractKeywords (''caf'' @ [CHR 0xE9]) = []"
proof -
  have 1: "words (''caf'' @ [CHR 0xE9]) = []" by code_simp
  have 2: "spec_tokens (''caf'' @ [CHR 0xE9]) = [''caf'' @ [CHR 0xE9]]" by code_simp
  have 3: "words (''caf'' @ [CHR 0xE9]) \<noteq> spec_tokens (''caf'' @ [CHR 0xE9])"
    unfolding 1 2 by simp
  have 4: "extractKeywords (''caf'' @ [CHR 0xE9]) = []" by code_simp
  from 1 2 3 4 show ?thesis by (intro conjI)
qed

text \<open>
  C6.  When no token survives, the frequency scorer returns the empty list; a text of
  white space only, and the empty text, are such texts.  The division by the number of
  surviving tokens is evaluated once per ranked entry, and whenever there is an entry
  that number is positive.
\<close>

theorem no_tokens_no_hashtags:
  "(words text = [] \<longrightarrow> extractKeywords text = []) \<and>
   (list_all is_space text \<longrightarrow> words text = [] \<and> extractKeywords text = []) \<and>
   extractKeywords [] = [] \<and>
   (take 12 (js_sort count_cmp (entries (wordCount (words text)))) \<noteq> [] \<longrightarrow> 0 < length (words text))"
proof -
  have 1: "extractKeywords t = []" if "words t = []" for t
    using that by (rule extractKeywords_no_words)
  have 2: "words text = [] \<and> extractKeywords text = []" if "list_all is_space text"
    using that words_of_white_space 1 by blast
  have "words [] = []" by (rule words_of_white_space) simp
  then have 3: "extractKeywords [] = []" by (rule 1)
  have 4: "0 < length (words text)"
    if ne: "take 12 (js_sort count_cmp (entries (wordCount (words text)))) \<noteq> []"
  proof -
    from ne obtain e where "e \<in> set (take 12 (js_sort count_cmp (entries (wordCount (words text)))))"
      by (meson last_in_set)
    with set_ranked_entries have "e \<in> set (wordCount (words text))" by blast
    then have "fst e \<in> fst ` set (wordCount (words text))" by (rule imageI)
    with wordCount_keys have "fst e \<in> set (words text)" by blast
    then show ?thesis by (cases "words text") auto
  qed
  from 1 2 3 4 show ?thesis by blast
qed

theorem no_tokens_no_hashtags_witness:
  "words ''It is a new day!'' = [] \<and> extractKeywords ''It is a new day!'' = [] \<and>
   list_all is_space [CHR '' '', CHR 0x09, CHR 0x0A, CHR 0xA0] \<and>
   extractKeywords [CHR '' '', CHR 0x09, CHR 0x0A, CHR 0xA0] = [] \<and>
   take 12 (js_sort count_cmp (entries (wordCount (words ''training'')))) \<noteq> [] \<and>
   0 < length (words ''training'')"
proof -
  have a: "words ''It is a new day!'' = []" by code_simp
  have b: "list_all is_space [CHR '' '', CHR 0x09, CHR 0x0A, CHR 0xA0]" by code_simp
  have c: "take 12 (js_sort count_cmp (entries (wordCount (words ''training'')))) \<noteq> []"
    by code_simp
  from no_tokens_no_hashtags [of "''It is a new day!''"] a
  have a': "extractKeywords ''It is a new day!'' = []" by blast
  from no_tokens_no_hashtags [of "[CHR '' '', CHR 0x09, CHR 0x0A, CHR 0xA0]"] b
  have b': "extractKeywords [CHR '' '', CHR 0x09, CHR 0x0A, CHR 0xA0] = []" by blast
  from no_tokens_no_hashtags [of "''training''"] c
  have c': "0 < length (words ''training'')" by blast
  from a a' b b' c c' show ?thesis by (intro conjI)
qed

section \<open>The category scorer\<close>

lemma keywords_lower:
  "list_all (\<lambda>(category, keywords). list_all (\<lambda>keyword. toLowerCase keyword = keyword) keywords) categories"
  by code_simp

lemma keyword_lower:
  "(category, kws) \<in> set categories \<Longrightarrow> keyword \<in> set kws \<Longrightarrow> toLowerCase keyword = keyword"
  using keywords_lower by (auto simp: list_all_iff)

lemma matched_category_tag:
  assumes mem: "(category, kws) \<in> set categories" and k: "keyword \<in> set kws"
    and sub: "sublist keyword (toLowerCase t)"
  shows "keyword \<in> set (filter (\<lambda>k. str_includes (toLowerCase t) k) kws) \<and>
    (\<exists>h \<in> set (matchedCategories t). tag h = CHR ''#'' # category \<and>
        conf_in (1 / of_nat (length kws)) 1 (confidence h))"
proof -
  let ?m = "filter (\<lambda>k. str_includes (toLowerCase t) k) kws"
  let ?h = "\<lparr>tag = CHR ''#'' # category, confidence = Fin (of_nat (length ?m) / of_nat (length kws))\<rparr>"
  have km: "keyword \<in> set ?m" using k sub by (simp add: str_includes_sublist)
  then have ne: "?m \<noteq> []" by (metis empty_iff empty_set)
  then have pos: "1 \<le> length ?m" by (cases ?m) simp_all
  have le: "length ?m \<le> length kws" by (rule length_filter_le)
  from pos le have kpos: "0 < length kws" by linarith
  have "?h \<in> set (category_block (toLowerCase t) (category, kws))"
    using ne by (simp add: category_block_def Let_def)
  moreover from category_block_in_emitted [OF mem, of t]
  have "set (category_block (toLowerCase t) (category, kws)) \<subseteq> set (matchedCategories t)"
    by auto
  ultimately have hin: "?h \<in> set (matchedCategories t)" by blast
  have "(1::rat) \<le> of_nat (length ?m)" using pos by simp
  then have lo: "(1::rat) / of_nat (length kws) \<le> of_nat (length ?m) / of_nat (length kws)"
    using kpos by (simp add: divide_right_mono)
  have "(of_nat (length ?m) :: rat) \<le> of_nat (length kws)" using le by (simp only: of_nat_le_iff)
  then have hi: "(of_nat (length ?m) :: rat) / of_nat (length kws) \<le> 1"
    by (simp add: divide_le_eq_1)
  from lo hi have "conf_in (1 / of_nat (length kws)) 1 (confidence ?h)" by simp
  with hin km show ?thesis by (intro conjI bexI [of _ ?h]) simp_all
qed

text \<open>
  The cut to eight entries can drop an emitted tag: on the text below the tag of the
  category \<^verbatim>\<open>technology\<close> is emitted and is not among the eight returned.
\<close>

lemma emitted_not_returned:
  "\<lparr>tag = ''#technology'', confidence = Fin (1 / 9)\<rparr>
     \<in> set (matchedCategories ''aiming business life fitness travel'') \<and>
   \<lparr>tag = ''#technology'', confidence = Fin (1 / 9)\<rparr>
     \<notin> set (generateCategoryHashtags ''aiming business life fitness travel'') \<and>
   generateCategoryHashtags ''aiming business life fitness travel'' =
     [\<lparr>tag = ''#ai'', confidence = Fin (7 / 10)\<rparr>,
      \<lparr>tag = ''#business'', confidence = Fin (7 / 10)\<rparr>,
      \<lparr>tag = ''#life'', confidence = Fin (7 / 10)\<rparr>,
      \<lparr>tag = ''#fitness'', confidence = Fin (7 / 10)\<rparr>,
      \<lparr>tag = ''#travel'', confidence = Fin (7 / 10)\<rparr>,
      \<lparr>tag = ''#business'', confidence = Fin (1 / 8)\<rparr>,
      \<lparr>tag = ''#lifestyle'', confidence = Fin (1 / 8)\<rparr>,
      \<lparr>tag = ''#fitness'', confidence = Fin (1 / 8)\<rparr>]"
proof -
  have 1: "\<lparr>tag = ''#technology'', confidence = Fin (1 / 9)\<rparr>
     \<in> set (matchedCategories ''aiming business life fitness travel'')"
    by code_simp
  have 3: "generateCategoryHashtags ''aiming business life fitness travel'' =
     [\<lparr>tag = ''#ai'', confidence = Fin (7 / 10)\<rparr>,
      \<lparr>tag = ''#business'', confidence = Fin (7 / 10)\<rparr>,
      \<lparr>tag = ''#life'', confidence = Fin (7 / 10)\<rparr>,
      \<lparr>tag = ''#fitness'', confidence = Fin (7 / 10)\<rparr>,
      \<lparr>tag = ''#travel'', confidence = Fin (7 / 10)\<rparr>,
      \<lparr>tag = ''#business'', confidence = Fin (1 / 8)\<rparr>,
      \<lparr>tag = ''#lifestyle'', confidence = Fin (1 / 8)\<rparr>,
      \<lparr>tag = ''#fitness'', confidence = Fin (1 / 8)\<rparr>]"
    by code_simp
  have 2: "\<lparr>tag = ''#technology'', confidence = Fin (1 / 9)\<rparr>
     \<notin> set (generateCategoryHashtags ''aiming business life fitness travel'')"
    unfolding 3 by simp
  from 1 2 3 show ?thesis by (intro conjI)
qed

text \<open>
  C7.  To emit is to push onto the list \<^verbatim>\<open>matchedCategories\<close>, which is ranked
  and cut to eight entries afterwards.  That list is, category after category in table
  order, what each category emits.  For every category with at least one keyword that
  is a substring of the lower-cased text, the list holds in one run the category tag,
  whose confidence is the number of matched keywords divided by the number of keywords
  of the category, and then the tags of the first two matched keywords, in keyword
  order, each at 0.7.  When at most eight entries were emitted, the result holds all
  of them.
\<close>

theorem category_emits:
  "matchedCategories text = concat (map (category_block (toLowerCase text)) categories) \<and>
   (\<forall>(category, keywords) \<in> set categories.
      let matches = filter (\<lambda>keyword. sublist keyword (toLowerCase text)) keywords in
      matches \<noteq> [] \<longrightarrow>
        (\<exists>pre post. matchedCategories text =
           pre @ [\<lparr>tag = CHR ''#'' # category,
                   confidence = Fin (of_nat (length matches) / of_nat (length keywords))\<rparr>]
               @ map (\<lambda>keyword. \<lparr>tag = CHR ''#'' # keyword, confidence = Fin (7 / 10)\<rparr>)
                   (take 2 matches)
               @ post)) \<and>
   (length (matchedCategories text) \<le> 8 \<longrightarrow>
      mset (generateCategoryHashtags text) = mset (matchedCategories text))"
proof -
  have 1: "matchedCategories text = concat (map (category_block (toLowerCase text)) categories)"
    by (rule matchedCategories_concat)
  have 2: "\<exists>pre post. matchedCategories text =
           pre @ [\<lparr>tag = CHR ''#'' # category,
                   confidence = Fin (of_nat (length (filter (\<lambda>keyword. sublist keyword (toLowerCase text)) kws))
                                     / of_nat (length kws))\<rparr>]
               @ map (\<lambda>keyword. \<lparr>tag = CHR ''#'' # keyword, confidence = Fin (7 / 10)\<rparr>)
                   (take 2 (filter (\<lambda>keyword. sublist keyword (toLowerCase text)) kws))
               @ post"
    if mem: "(category, kws) \<in> set categories"
      and ne: "filter (\<lambda>keyword. sublist keyword (toLowerCase text)) kws \<noteq> []" for category kws
  proof -
    from category_block_in_emitted [OF mem, of "text"] obtain pre post where
      "matchedCategories text = pre @ category_block (toLowerCase text) (category, kws) @ post"
      by blast
    with ne have "matchedCategories text =
           pre @ [\<lparr>tag = CHR ''#'' # category,
                   confidence = Fin (of_nat (length (filter (\<lambda>keyword. sublist keyword (toLowerCase text)) kws))
                                     / of_nat (length kws))\<rparr>]
               @ map (\<lambda>keyword. \<lparr>tag = CHR ''#'' # keyword, confidence = Fin (7 / 10)\<rparr>)
                   (take 2 (filter (\<lambda>keyword. sublist keyword (toLowerCase text)) kws))
               @ post"
      by (simp add: category_block_def str_includes_sublist Let_def)
    then show ?thesis by blast
  qed
  have 3: "mset (generateCategoryHashtags text) = mset (matchedCategories text)"
    if "length (matchedCategories text) \<le> 8"
    using that by (simp add: generateCategoryHashtags_def length_js_sort mset_js_sort)
  from 1 2 3 show ?thesis by (auto simp: Let_def)
qed

theorem category_emits_witness:
  "filter (\<lambda>keyword. sublist keyword (toLowerCase ''training''))
     [''fitness'', ''workout'', ''exercise'', ''health'', ''gym'', ''training'', ''muscle'', ''strength'']
     = [''training''] \<and>
   (\<exists>pre post. matchedCategories ''training'' =
      pre @ [\<lparr>tag = ''#fitness'', confidence = Fin (1 / 8)\<rparr>,
             \<lparr>tag = ''#training'', confidence = Fin (7 / 10)\<rparr>] @ post)"
proof -
  let ?kws = "[''fitness'', ''workout'', ''exercise'', ''health'', ''gym'', ''training'', ''muscle'', ''strength'']"
  have mem: "(''fitness'', ?kws) \<in> set categories" by code_simp
  have f: "filter (\<lambda>keyword. sublist keyword (toLowerCase ''training'')) ?kws = [''training'']"
    unfolding str_includes_sublist [symmetric] by code_simp
  from category_emits [of "''training''"] mem
  have "let matches = filter (\<lambda>keyword. sublist keyword (toLowerCase ''training'')) ?kws in
      matches \<noteq> [] \<longrightarrow>
        (\<exists>pre post. matchedCategories ''training'' =
           pre @ [\<lparr>tag = CHR ''#'' # ''fitness'',
                   confidence = Fin (of_nat (length matches) / of_nat (length ?kws))\<rparr>]
               @ map (\<lambda>keyword. \<lparr>tag = CHR ''#'' # keyword, confidence = Fin (7 / 10)\<rparr>)
                   (take 2 matches)
               @ post)"
    by blast
  then have "\<exists>pre post. matchedCategories ''training'' =
      pre @ [\<lparr>tag = ''#fitness'', confidence = Fin (1 / 8)\<rparr>,
             \<lparr>tag = ''#training'', confidence = Fin (7 / 10)\<rparr>] @ post"
    unfolding f Let_def by simp
  with f show ?thesis by blast
qed

text \<open>
  C8.  The category scorer returns at most 8 entries, each with a confidence between 0
  and 1.  They are the first eight entries of the emitted list sorted descending by
  confidence: the sorted list has the same entries as the emitted one and is
  descending, and so is the result.
\<close>

theorem category_scorer_bounded:
  "length (generateCategoryHashtags text) \<le> 8 \<and>
   (\<forall>h \<in> set (generateCategoryHashtags text). conf_in 0 1 (confidence h)) \<and>
   generateCategoryHashtags text = take 8 (js_sort confidence_cmp (matchedCategories text)) \<and>
   mset (js_sort confidence_cmp (matchedCategories text)) = mset (matchedCategories text) \<and>
   descending (js_sort confidence_cmp (matchedCategories text)) \<and>
   descending (generateCategoryHashtags text)"
proof -
  let ?s = "js_sort confidence_cmp (matchedCategories text)"
  have fin: "\<forall>h\<in>set (matchedCategories text). confidence h \<noteq> NaN"
    using matchedCategories_conf conf_in_not_NaN by blast
  have 1: "length (generateCategoryHashtags text) \<le> 8"
    by (simp add: generateCategoryHashtags_def)
  have "set (generateCategoryHashtags text) \<subseteq> set (matchedCategories text)"
    unfolding generateCategoryHashtags_def using set_take_subset [of 8 ?s]
    by (simp add: set_js_sort)
  then have 2: "\<forall>h \<in> set (generateCategoryHashtags text). conf_in 0 1 (confidence h)"
    using matchedCategories_conf by blast
  have 3: "generateCategoryHashtags text = take 8 ?s"
    by (simp add: generateCategoryHashtags_def)
  have 4: "mset ?s = mset (matchedCategories text)" by (rule mset_js_sort)
  have 5: "descending ?s" using fin by (rule descending_js_sort)
  then have 6: "descending (generateCategoryHashtags text)"
    unfolding generateCategoryHashtags_def by (rule descending_take)
  from 1 2 3 4 5 6 show ?thesis by blast
qed

theorem category_scorer_bounded_witness:
  "\<lparr>tag = ''#ai'', confidence = Fin (7 / 10)\<rparr> \<in> set (generateCategoryHashtags ''aiming'') \<and>
   conf_in 0 1 (Fin (7 / 10))"
proof -
  have m: "\<lparr>tag = ''#ai'', confidence = Fin (7 / 10)\<rparr> \<in> set (generateCategoryHashtags ''aiming'')"
    by code_simp
  from category_scorer_bounded [of "''aiming''"] m
  have "conf_in 0 1 (confidence \<lparr>tag = ''#ai'', confidence = Fin (7 / 10)\<rparr>)" by blast
  with m show ?thesis by simp
qed

text \<open>
  C9.  A keyword matches when it is a substring of the lower-cased text, with no look
  at word boundaries: whenever a keyword of a category occurs anywhere in the
  lower-cased text it is among the matches and the category's tag is emitted, with a
  confidence of at least one over the number of keywords; in particular this holds for
  the keyword written between any two strings.  On \<^verbatim>\<open>aiming\<close> the scorer returns
  the tags of the keyword \<^verbatim>\<open>ai\<close> and of its category \<^verbatim>\<open>technology\<close>.
\<close>

theorem category_substring_match:
  "(\<forall>(category, keywords) \<in> set categories. \<forall>keyword \<in> set keywords.
      sublist keyword (toLowerCase text) \<longrightarrow>
        keyword \<in> set (filter (\<lambda>k. str_includes (toLowerCase text) k) keywords) \<and>
        (\<exists>h \<in> set (matchedCategories text). tag h = CHR ''#'' # category \<and>
            conf_in (1 / of_nat (length keywords)) 1 (confidence h))) \<and>
   (\<forall>(category, keywords) \<in> set categories. \<forall>keyword \<in> set keywords. \<forall>before after.
      \<exists>h \<in> set (matchedCategories (before @ keyword @ after)). tag h = CHR ''#'' # category) \<and>
   generateCategoryHashtags ''aiming'' =
     [\<lparr>tag = ''#ai'', confidence = Fin (7 / 10)\<rparr>,
      \<lparr>tag = ''#technology'', confidence = Fin (1 / 9)\<rparr>]"
proof -
  have 1: "keyword \<in> set (filter (\<lambda>k. str_includes (toLowerCase text) k) kws) \<and>
        (\<exists>h \<in> set (matchedCategories text). tag h = CHR ''#'' # category \<and>
            conf_in (1 / of_nat (length kws)) 1 (confidence h))"
    if "(category, kws) \<in> set categories" "keyword \<in> set kws" "sublist keyword (toLowerCase text)"
    for category kws keyword
    using that by (rule matched_category_tag)
  have 2: "\<exists>h \<in> set (matchedCategories (before @ keyword @ after)). tag h = CHR ''#'' # category"
    if mem: "(category, kws) \<in> set categories" and k: "keyword \<in> set kws"
    for category kws keyword before after
  proof -
    have "toLowerCase (before @ keyword @ after) = toLowerCase before @ keyword @ toLowerCase after"
      using keyword_lower [OF mem k] by (simp add: toLowerCase_def)
    then have "sublist keyword (toLowerCase (before @ keyword @ after))"
      by (auto simp: sublist_def)
    from matched_category_tag [OF mem k this] show ?thesis by blast
  qed
  have 3: "generateCategoryHashtags ''aiming'' =
     [\<lparr>tag = ''#ai'', confidence = Fin (7 / 10)\<rparr>,
      \<lparr>tag = ''#technology'', confidence = Fin (1 / 9)\<rparr>]"
    by code_simp
  from 1 2 3 show ?thesis by (auto simp del: set_filter)
qed

theorem category_substring_match_witness:
  "sublist ''ai'' (toLowerCase ''aiming'') \<and>
   (\<exists>h \<in> set (matchedCategories ''aiming''). tag h = ''#technology'' \<and>
      conf_in (1 / 9) 1 (confidence h))"
proof -
  let ?kws = "[''tech'', ''ai'', ''software'', ''digital'', ''innovation'', ''coding'',
               ''development'', ''startup'', ''algorithm'']"
  have mem: "(''technology'', ?kws) \<in> set categories" by code_simp
  have k: "''ai'' \<in> set ?kws" by simp
  have sub: "sublist ''ai'' (toLowerCase ''aiming'')"
    unfolding str_includes_sublist [symmetric] by code_simp
  from category_substring_match [of "''aiming''"] mem
  have "\<forall>keyword \<in> set ?kws. sublist keyword (toLowerCase ''aiming'') \<longrightarrow>
        keyword \<in> set (filter (\<lambda>k. str_includes (toLowerCase ''aiming'') k) ?kws) \<and>
        (\<exists>h \<in> set (matchedCategories ''aiming''). tag h = CHR ''#'' # ''technology'' \<and>
            conf_in (1 / of_nat (length ?kws)) 1 (confidence h))"
    by blast
  with k sub have "\<exists>h \<in> set (matchedCategories ''aiming''). tag h = CHR ''#'' # ''technology'' \<and>
            conf_in (1 / of_nat (length ?kws)) 1 (confidence h)"
    by blast
  then have "\<exists>h \<in> set (matchedCategories ''aiming''). tag h = ''#technology'' \<and>
      conf_in (1 / 9) 1 (confidence h)"
    by simp
  with sub show ?thesis by blast
qed

text \<open>
  C10.  The category scorer does not remove duplicates.  On each of the texts
  \<^verbatim>\<open>training\<close>, \<^verbatim>\<open>development\<close> and \<^verbatim>\<open>innovation\<close> two categories
  share the matched keyword, and the result holds the keyword's tag twice, both at 0.7.
  The merge step is what removes the second one: the pipeline's result for
  \<^verbatim>\<open>training\<close> has the tag once.
\<close>

theorem category_scorer_duplicates:
  "generateCategoryHashtags ''training'' =
     [\<lparr>tag = ''#ai'', confidence = Fin (7 / 10)\<rparr>,
      \<lparr>tag = ''#training'', confidence = Fin (7 / 10)\<rparr>,
      \<lparr>tag = ''#training'', confidence = Fin (7 / 10)\<rparr>,
      \<lparr>tag = ''#fitness'', confidence = Fin (1 / 8)\<rparr>,
      \<lparr>tag = ''#education'', confidence = Fin (1 / 8)\<rparr>,
      \<lparr>tag = ''#technology'', confidence = Fin (1 / 9)\<rparr>] \<and>
   generateCategoryHashtags ''development'' =
     [\<lparr>tag = ''#development'', confidence = Fin (7 / 10)\<rparr>,
      \<lparr>tag = ''#development'', confidence = Fin (7 / 10)\<rparr>,
      \<lparr>tag = ''#education'', confidence = Fin (1 / 8)\<rparr>,
      \<lparr>tag = ''#technology'', confidence = Fin (1 / 9)\<rparr>] \<and>
   generateCategoryHashtags ''innovation'' =
     [\<lparr>tag = ''#innovation'', confidence = Fin (7 / 10)\<rparr>,
      \<lparr>tag = ''#innovation'', confidence = Fin (7 / 10)\<rparr>,
      \<lparr>tag = ''#creativity'', confidence = Fin (1 / 8)\<rparr>,
      \<lparr>tag = ''#technology'', confidence = Fin (1 / 9)\<rparr>] \<and>
   \<not> distinct (map tag (generateCategoryHashtags ''training'')) \<and>
   \<not> distinct (map tag (generateCategoryHashtags ''development'')) \<and>
   \<not> distinct (map tag (generateCategoryHashtags ''innovation'')) \<and>
   allHashtags ''training'' =
     [\<lparr>tag = ''#training'', confidence = Fin (9 / 10)\<rparr>,
      \<lparr>tag = ''#ai'', confidence = Fin (7 / 10)\<rparr>,
      \<lparr>tag = ''#fitness'', confidence = Fin (1 / 8)\<rparr>,
      \<lparr>tag = ''#education'', confidence = Fin (1 / 8)\<rparr>,
      \<lparr>tag = ''#technology'', confidence = Fin (1 / 9)\<rparr>]"
proof -
  have t: "generateCategoryHashtags ''training'' =
     [\<lparr>tag = ''#ai'', confidence = Fin (7 / 10)\<rparr>,
      \<lparr>tag = ''#training'', confidence = Fin (7 / 10)\<rparr>,
      \<lparr>tag = ''#training'', confidence = Fin (7 / 10)\<rparr>,
      \<lparr>tag = ''#fitness'', confidence = Fin (1 / 8)\<rparr>,
      \<lparr>tag = ''#education'', confidence = Fin (1 / 8)\<rparr>,
      \<lparr>tag = ''#technology'', confidence = Fin (1 / 9)\<rparr>]"
    by code_simp
  have d: "generateCategoryHashtags ''development'' =
     [\<lparr>tag = ''#development'', confidence = Fin (7 / 10)\<rparr>,
      \<lparr>tag = ''#development'', confidence = Fin (7 / 10)\<rparr>,
      \<lparr>tag = ''#education'', confidence = Fin (1 / 8)\<rparr>,
      \<lparr>tag = ''#technology'', confidence = Fin (1 / 9)\<rparr>]"
    by code_simp
  have i: "generateCategoryHashtags ''innovation'' =
     [\<lparr>tag = ''#innovation'', confidence = Fin (7 / 10)\<rparr>,
      \<lparr>tag = ''#innovation'', confidence = Fin (7 / 10)\<rparr>,
      \<lparr>tag = ''#creativity'', confidence = Fin (1 / 8)\<rparr>,
      \<lparr>tag = ''#technology'', confidence = Fin (1 / 9)\<rparr>]"
    by code_simp
  have a: "allHashtags ''training'' =
     [\<lparr>tag = ''#training'', confidence = Fin (9 / 10)\<rparr>,
      \<lparr>tag = ''#ai'', confidence = Fin (7 / 10)\<rparr>,
      \<lparr>tag = ''#fitness'', confidence = Fin (1 / 8)\<rparr>,
      \<lparr>tag = ''#education'', confidence = Fin (1 / 8)\<rparr>,
      \<lparr>tag = ''#technology'', confidence = Fin (1 / 9)\<rparr>]"
    by code_simp
  have nt: "\<not> distinct (map tag (generateCategoryHashtags ''training''))"
    unfolding t by simp
  have nd: "\<not> distinct (map tag (generateCategoryHashtags ''development''))"
    unfolding d by simp
  have ni: "\<not> distinct (map tag (generateCategoryHashtags ''innovation''))"
    unfolding i by simp
  from t d i nt nd ni a show ?thesis by (intro conjI)
qed

section \<open>The merge step\<close>

text \<open>
  C1.  Whatever the two lists and the limit are, no two entries of the merged list have
  the same tag up to letter case; every entry of the merged list is the first entry
  with its tag (up to case) in the first list followed by the second; so when the
  first list has an entry with that tag, the entry kept is the first list's.
\<close>

theorem merge_dedup_first_occurrence:
  "distinct (map (\<lambda>h. toLowerCase (tag h)) (merge limit a b)) \<and>
   (\<forall>h \<in> set (merge limit a b).
      find (\<lambda>x. toLowerCase (tag x) = toLowerCase (tag h)) (a @ b) = Some h) \<and>
   (\<forall>h \<in> set (merge limit a b).
      (\<exists>x \<in> set a. toLowerCase (tag x) = toLowerCase (tag h)) \<longrightarrow>
      find (\<lambda>x. toLowerCase (tag x) = toLowerCase (tag h)) a = Some h)"
proof -
  let ?d = "dedupe (a @ b)"
  have sub: "set (merge limit a b) \<subseteq> set ?d"
    unfolding merge_def using set_take_subset [of limit "js_sort confidence_cmp ?d"]
    by (simp add: set_js_sort)
  have "distinct (map (\<lambda>h. toLowerCase (tag h)) (js_sort confidence_cmp ?d))"
    by (simp add: distinct_map_js_sort distinct_dedupe)
  then have 1: "distinct (map (\<lambda>h. toLowerCase (tag h)) (merge limit a b))"
    unfolding merge_def take_map [symmetric] by (rule distinct_take)
  have 2: "find (\<lambda>x. toLowerCase (tag x) = toLowerCase (tag h)) (a @ b) = Some h"
    if "h \<in> set (merge limit a b)" for h
    using that sub dedupe_first by blast
  have 3: "find (\<lambda>x. toLowerCase (tag x) = toLowerCase (tag h)) a = Some h"
    if "h \<in> set (merge limit a b)" and "\<exists>x \<in> set a. toLowerCase (tag x) = toLowerCase (tag h)" for h
    using 2 [OF that(1)] that(2) by (rule find_in_prefix)
  from 1 2 3 show ?thesis by blast
qed

theorem merge_dedup_first_occurrence_witness:
  "\<lparr>tag = ''#Tech'', confidence = Fin (1 / 2)\<rparr>
     \<in> set (merge 15 [\<lparr>tag = ''#Tech'', confidence = Fin (1 / 2)\<rparr>]
                 [\<lparr>tag = ''#tech'', confidence = Fin (9 / 10)\<rparr>,
                  \<lparr>tag = ''#ai'', confidence = Fin (7 / 10)\<rparr>]) \<and>
   find (\<lambda>x. toLowerCase (tag x) = toLowerCase ''#Tech'')
     ([\<lparr>tag = ''#Tech'', confidence = Fin (1 / 2)\<rparr>] @
      [\<lparr>tag = ''#tech'', confidence = Fin (9 / 10)\<rparr>,
       \<lparr>tag = ''#ai'', confidence = Fin (7 / 10)\<rparr>])
     = Some \<lparr>tag = ''#Tech'', confidence = Fin (1 / 2)\<rparr> \<and>
   find (\<lambda>x. toLowerCase (tag x) = toLowerCase ''#Tech'')
     [\<lparr>tag = ''#Tech'', confidence = Fin (1 / 2)\<rparr>]
     = Some \<lparr>tag = ''#Tech'', confidence = Fin (1 / 2)\<rparr>"
proof -
  let ?h = "\<lparr>tag = ''#Tech'', confidence = Fin (1 / 2)\<rparr>"
  let ?a = "[?h]"
  let ?b = "[\<lparr>tag = ''#tech'', confidence = Fin (9 / 10)\<rparr>,
             \<lparr>tag = ''#ai'', confidence = Fin (7 / 10)\<rparr>]"
  have m: "?h \<in> set (merge 15 ?a ?b)" by code_simp
  have e: "\<exists>x \<in> set ?a. toLowerCase (tag x) = toLowerCase (tag ?h)" by code_simp
  from merge_dedup_first_occurrence [of 15 ?a ?b] m e
  have "find (\<lambda>x. toLowerCase (tag x) = toLowerCase (tag ?h)) (?a @ ?b) = Some ?h"
    and "find (\<lambda>x. toLowerCase (tag x) = toLowerCase (tag ?h)) ?a = Some ?h"
    by blast+
  with m show ?thesis by simp
qed

text \<open>
  C2.  When every confidence in the two lists is a finite number, the merged list is
  sorted descending by confidence.  The sort is stable: for each confidence value, the
  entries with that value come out of the sort in the order they had in the
  deduplicated concatenation, and the merged list holds the first of them in that
  order.
\<close>

theorem merge_sorted_stable:
  assumes "\<forall>h \<in> set (a @ b). confidence h \<noteq> NaN"
  shows "descending (merge limit a b) \<and>
    (\<forall>v. filter (\<lambda>h. confidence h = v) (js_sort confidence_cmp (dedupe (a @ b))) =
         filter (\<lambda>h. confidence h = v) (dedupe (a @ b))) \<and>
    (\<forall>v. prefix (filter (\<lambda>h. confidence h = v) (merge limit a b))
                (filter (\<lambda>h. confidence h = v) (dedupe (a @ b))))"
proof -
  let ?d = "dedupe (a @ b)"
  have "\<forall>h\<in>set ?d. confidence h \<noteq> NaN"
    using assms set_dedupe_subset [of "a @ b"] by blast
  then have "descending (js_sort confidence_cmp ?d)"
    by (rule descending_js_sort)
  then have 1: "descending (merge limit a b)"
    unfolding merge_def by (rule descending_take)
  have 3: "prefix (filter (\<lambda>h. confidence h = v) (merge limit a b))
                (filter (\<lambda>h. confidence h = v) ?d)" for v
  proof -
    have "prefix (merge limit a b) (js_sort confidence_cmp ?d)"
      unfolding merge_def by (rule take_is_prefix)
    then have "prefix (filter (\<lambda>h. confidence h = v) (merge limit a b))
                (filter (\<lambda>h. confidence h = v) (js_sort confidence_cmp ?d))"
      by (rule filter_mono_prefix)
    then show ?thesis by (simp only: stable_js_sort)
  qed
  from 1 3 show ?thesis by (simp add: stable_js_sort)
qed

theorem merge_sorted_stable_witness:
  "NaN \<notin> set (map confidence
                   ([\<lparr>tag = ''#a'', confidence = Fin (1 / 2)\<rparr>,
                     \<lparr>tag = ''#b'', confidence = Fin (7 / 10)\<rparr>] @
                    [\<lparr>tag = ''#c'', confidence = Fin (7 / 10)\<rparr>,
                     \<lparr>tag = ''#A'', confidence = Fin (9 / 10)\<rparr>])) \<and>
   merge 15 [\<lparr>tag = ''#a'', confidence = Fin (1 / 2)\<rparr>,
             \<lparr>tag = ''#b'', confidence = Fin (7 / 10)\<rparr>]
            [\<lparr>tag = ''#c'', confidence = Fin (7 / 10)\<rparr>,
             \<lparr>tag = ''#A'', confidence = Fin (9 / 10)\<rparr>]
     = [\<lparr>tag = ''#b'', confidence = Fin (7 / 10)\<rparr>,
        \<lparr>tag = ''#c'', confidence = Fin (7 / 10)\<rparr>,
        \<lparr>tag = ''#a'', confidence = Fin (1 / 2)\<rparr>] \<and>
   descending (merge 15 [\<lparr>tag = ''#a'', confidence = Fin (1 / 2)\<rparr>,
                         \<lparr>tag = ''#b'', confidence = Fin (7 / 10)\<rparr>]
                        [\<lparr>tag = ''#c'', confidence = Fin (7 / 10)\<rparr>,
                         \<lparr>tag = ''#A'', confidence = Fin (9 / 10)\<rparr>])"
proof -
  let ?a = "[\<lparr>tag = ''#a'', confidence = Fin (1 / 2)\<rparr>,
             \<lparr>tag = ''#b'', confidence = Fin (7 / 10)\<rparr>]"
  let ?b = "[\<lparr>tag = ''#c'', confidence = Fin (7 / 10)\<rparr>,
             \<lparr>tag = ''#A'', confidence = Fin (9 / 10)\<rparr>]"
  have h: "\<forall>h \<in> set (?a @ ?b). confidence h \<noteq> NaN" by simp
  have v: "merge 15 ?a ?b = [\<lparr>tag = ''#b'', confidence = Fin (7 / 10)\<rparr>,
        \<lparr>tag = ''#c'', confidence = Fin (7 / 10)\<rparr>,
        \<lparr>tag = ''#a'', confidence = Fin (1 / 2)\<rparr>]" by code_simp
  have n: "NaN \<notin> set (map confidence (?a @ ?b))" by simp
  from merge_sorted_stable [OF h, of 15] have "descending (merge 15 ?a ?b)" by blast
  with n v show ?thesis by blast
qed

text \<open>
  C3.  The merged list has at most as many entries as the limit says, being the first
  entries, up to the limit, of the sorted deduplicated list.  The pipeline merges with
  the limit 15, so whatever the text is, the list it computes, and the list
  \<^verbatim>\<open>generateHashtags\<close> stores when it stores one, has at most 15 entries.
\<close>

theorem merge_length_limit:
  "length (merge n a b) \<le> n \<and>
   merge n a b = take n (js_sort confidence_cmp (dedupe (a @ b))) \<and>
   length (allHashtags text) \<le> 15 \<and>
   (\<forall>probe_ok hs. generateHashtags probe_ok text = Some hs \<longrightarrow> length hs \<le> 15)"
proof -
  have 1: "length (merge n a b) \<le> n" for n a b by (simp add: merge_def)
  have 2: "merge n a b = take n (js_sort confidence_cmp (dedupe (a @ b)))" by (simp add: merge_def)
  have 3: "length (allHashtags text) \<le> 15" unfolding allHashtags_def by (rule 1)
  have 4: "length hs \<le> 15" if "generateHashtags probe_ok text = Some hs" for probe_ok hs
    using that 3 by (auto simp: generateHashtags_def split: if_splits)
  from 1 2 3 4 show ?thesis by blast
qed

theorem merge_length_limit_witness:
  "generateHashtags True ''training'' =
     Some [\<lparr>tag = ''#training'', confidence = Fin (9 / 10)\<rparr>,
           \<lparr>tag = ''#ai'', confidence = Fin (7 / 10)\<rparr>,
           \<lparr>tag = ''#fitness'', confidence = Fin (1 / 8)\<rparr>,
           \<lparr>tag = ''#education'', confidence = Fin (1 / 8)\<rparr>,
           \<lparr>tag = ''#technology'', confidence = Fin (1 / 9)\<rparr>] \<and>
   length [\<lparr>tag = ''#training'', confidence = Fin (9 / 10)\<rparr>,
           \<lparr>tag = ''#ai'', confidence = Fin (7 / 10)\<rparr>,
           \<lparr>tag = ''#fitness'', confidence = Fin (1 / 8)\<rparr>,
           \<lparr>tag = ''#education'', confidence = Fin (1 / 8)\<rparr>,
           \<lparr>tag = ''#technology'', confidence = Fin (1 / 9)\<rparr>] \<le> 15"
proof -
  let ?hs = "[\<lparr>tag = ''#training'', confidence = Fin (9 / 10)\<rparr>,
           \<lparr>tag = ''#ai'', confidence = Fin (7 / 10)\<rparr>,
           \<lparr>tag = ''#fitness'', confidence = Fin (1 / 8)\<rparr>,
           \<lparr>tag = ''#education'', confidence = Fin (1 / 8)\<rparr>,
           \<lparr>tag = ''#technology'', confidence = Fin (1 / 9)\<rparr>]"
  have g: "generateHashtags True ''training'' = Some ?hs" by code_simp
  from merge_length_limit [of 15 "[]" "[]" "''training''"] g have "length ?hs \<le> 15" by blast
  with g show ?thesis by blast
qed

end
